theory Spec2Isabelle
  imports Complex_Main "HOL-Library.AList"
begin

section \<open>Data model of Police\_Route\_Finder.py\<close>

text \<open>
  Vertex identities, coordinates and edge costs are Python integers (as in
  \<open>create_map\<close>), modelled as \<open>int\<close>; the floating-point values that the interactive
  menu can enter are not modelled. The one floating-point computation of the core,
  the angle of a step, is a parameter (see the route narrator). Python dictionaries whose iteration order is observable
  (\<open>Graph.vertices\<close>, \<open>Vertex.edges\<close>, \<open>PoliceDispatchSystem.cops\<close>) are association
  lists in insertion order, updated with \<open>AList.update\<close> (an existing key keeps its
  slot, a new key goes to the end). Exceptions are values of type \<open>error\<close>.
\<close>

datatype error = ValueError | KeyError | OverflowError

text \<open>\<open>float('infinity')\<close> next to the finite totals the code adds up.\<close>

datatype ecost = Fin int | Infinity

text \<open>
  The dictionary literal built by \<open>add_edge\<close>: exactly the three keys
  \<open>'light'\<close>, \<open>'normal'\<close> and \<open>'rush_hour'\<close>.
\<close>

record weights =
  w_light :: int
  w_normal :: int
  w_rush_hour :: int

text \<open>class Edge; the two vertex references are kept as vertex ids.\<close>

record edge =
  vertex1 :: int
  vertex2 :: int
  weights :: weights

text \<open>class Vertex (fields \<open>id\<close>, \<open>x\<close>, \<open>y\<close>, \<open>edges\<close>).\<close>

record vertex =
  vid :: int
  vx :: int
  vy :: int
  edges :: "(int \<times> edge) list"

text \<open>class Graph: its only field is the dictionary \<open>vertices\<close>.\<close>

type_synonym graph = "(int \<times> vertex) list"

type_synonym dmap = "int \<rightharpoonup> ecost"
type_synonym pmap = "int \<rightharpoonup> int option"
type_synonym heap = "(int \<times> int) list"

section \<open>Graph model\<close>

text \<open>\<open>Edge.get_weight\<close>: \<open>self.weights.get(traffic_condition, self.weights['normal'])\<close>.\<close>

definition get_weight :: "edge \<Rightarrow> string \<Rightarrow> int" where
  "get_weight e traffic_condition =
     (if traffic_condition = ''light'' then w_light (weights e)
      else if traffic_condition = ''normal'' then w_normal (weights e)
      else if traffic_condition = ''rush_hour'' then w_rush_hour (weights e)
      else w_normal (weights e))"

text \<open>
  \<open>Graph.add_vertex\<close>: builds a fresh vertex with no edges and stores it under the id,
  whatever was there before; returns the vertex (and the updated graph).
\<close>

definition add_vertex :: "graph \<Rightarrow> int \<Rightarrow> int \<Rightarrow> int \<Rightarrow> vertex \<times> graph" where
  "add_vertex g i x y =
     (let v = \<lparr>vid = i, vx = x, vy = y, edges = []\<rparr>
      in (v, AList.update i v g))"

text \<open>\<open>self.vertices[a].edges[b] = edge\<close>: the vertex stored under \<open>a\<close> is changed in place.\<close>

definition set_edge :: "graph \<Rightarrow> int \<Rightarrow> int \<Rightarrow> edge \<Rightarrow> graph" where
  "set_edge g a b e = AList.map_entry a (\<lambda>v. v\<lparr>edges := AList.update b e (edges v)\<rparr>) g"

text \<open>\<open>Graph.add_edge\<close>: raises \<open>ValueError\<close> unless both ids are present.\<close>

definition add_edge ::
  "graph \<Rightarrow> int \<Rightarrow> int \<Rightarrow> int \<Rightarrow> int \<Rightarrow> int \<Rightarrow> error + (edge \<times> graph)" where
  "add_edge g id1 id2 light_traffic normal_traffic rush_hour =
     (if map_of g id1 = None \<or> map_of g id2 = None then Inl ValueError
      else
        let ws = \<lparr>w_light = light_traffic, w_normal = normal_traffic,
                  w_rush_hour = rush_hour\<rparr>;
            e = \<lparr>vertex1 = id1, vertex2 = id2, weights = ws\<rparr>;
            g1 = set_edge g id1 id2 e;
            g2 = set_edge g1 id2 id1 e
        in Inr (e, g2))"

section \<open>Shortest-path engine\<close>

text \<open>\<open>distance < distances[neighbor_id]\<close>, a finite total against a table entry.\<close>

fun lt_ecost :: "int \<Rightarrow> ecost \<Rightarrow> bool" where
  "lt_ecost d (Fin x) = (d < x)"
| "lt_ecost d Infinity = True"

text \<open>
  The frontier is a \<open>heapq\<close> list of tuples \<open>(distance, vertex_id)\<close>. \<open>heappop\<close>
  returns the least tuple in Python's tuple order (first component, then second);
  equal tuples are the same value, so the list is kept as the bag of its entries
  and the array layout of the heap is left out.
\<close>

fun tuple_le :: "int \<times> int \<Rightarrow> int \<times> int \<Rightarrow> bool" where
  "tuple_le (d1, u1) (d2, u2) = (d1 < d2 \<or> (d1 = d2 \<and> u1 \<le> u2))"

fun heap_least :: "int \<times> int \<Rightarrow> heap \<Rightarrow> int \<times> int" where
  "heap_least m [] = m"
| "heap_least m (x # xs) = heap_least (if tuple_le m x then m else x) xs"

definition heappush :: "heap \<Rightarrow> int \<times> int \<Rightarrow> heap" where
  "heappush h item = item # h"

text \<open>
  The \<open>for neighbor_id, edge in self.vertices[current_id].edges.items()\<close> loop.
  \<open>distances[neighbor_id]\<close> raises \<open>KeyError\<close> for an id that is not in the table.
\<close>

fun relax ::
  "string \<Rightarrow> int set \<Rightarrow> int \<Rightarrow> int \<Rightarrow> (int \<times> edge) list \<Rightarrow> dmap \<times> pmap \<times> heap
     \<Rightarrow> error + (dmap \<times> pmap \<times> heap)" where
  "relax c visited current_id current_distance [] s = Inr s"
| "relax c visited current_id current_distance ((neighbor_id, e) # rest) (dists, preds, pq) =
     (if neighbor_id \<in> visited
      then relax c visited current_id current_distance rest (dists, preds, pq)
      else
        (case dists neighbor_id of
           None \<Rightarrow> Inl KeyError
         | Some dn \<Rightarrow>
             let weight = get_weight e c;
                 distance = current_distance + weight
             in if lt_ecost distance dn
                then relax c visited current_id current_distance rest
                       (dists(neighbor_id \<mapsto> Fin distance),
                        preds(neighbor_id \<mapsto> Some current_id),
                        heappush pq (distance, neighbor_id))
                else relax c visited current_id current_distance rest (dists, preds, pq)))"

text \<open>
  The \<open>while pq:\<close> loop. \<open>brk\<close> says whether the loop leaves as soon as the target is
  popped (\<open>if current_id == end_id: break\<close>, as the source does) or runs until the
  frontier is empty.
\<close>

function dijkstra_loop ::
  "bool \<Rightarrow> graph \<Rightarrow> string \<Rightarrow> int \<Rightarrow> dmap \<Rightarrow> pmap \<Rightarrow> heap \<Rightarrow> int set
     \<Rightarrow> error + (dmap \<times> pmap)" where
  "dijkstra_loop brk g c end_id dists preds pq visited =
     (case pq of
        [] \<Rightarrow> Inr (dists, preds)
      | x # xs \<Rightarrow>
          let m = heap_least x xs;
              pq' = remove1 m pq
          in if brk \<and> snd m = end_id then Inr (dists, preds)
             else if snd m \<in> visited
             then dijkstra_loop brk g c end_id dists preds pq' visited
             else
               (case map_of g (snd m) of
                  None \<Rightarrow> Inl KeyError
                | Some v \<Rightarrow>
                    (case relax c (insert (snd m) visited) (snd m) (fst m) (edges v)
                            (dists, preds, pq') of
                       Inl err \<Rightarrow> Inl err
                     | Inr (dists', preds', pq'') \<Rightarrow>
                         dijkstra_loop brk g c end_id dists' preds' pq''
                           (insert (snd m) visited))))"
  by pat_completeness auto
termination
proof (relation "(\<lambda>(brk, g, c, end_id, dists, preds, pq, visited).
                    card (fst ` set g - visited)) <*mlex*>
                 measure (\<lambda>(brk, g, c, end_id, dists, preds, pq, visited). length pq)")
  show "wf ((\<lambda>(brk, g, c, end_id, dists, preds, pq, visited).
                card (fst ` set g - visited)) <*mlex*>
            measure (\<lambda>(brk, g, c, end_id, dists, preds, pq, visited). length pq))"
    by (simp add: wf_mlex)
next
  fix brk :: bool and g :: graph and c :: string and end_id :: int and dists :: dmap
    and preds :: pmap and pq :: heap and visited :: "int set" and x xs m pq'
  assume "pq = x # xs" "m = heap_least x xs" "pq' = remove1 m pq"
    "\<not> (brk \<and> snd m = end_id)" "snd m \<in> visited"
  moreover have "heap_least y ys \<in> set (y # ys)" for y ys
    by (induction ys arbitrary: y) auto
  ultimately have "m \<in> set pq"
    by simp
  then have "length (remove1 m pq) < length pq"
    using length_pos_if_in_set [of m pq] by (simp add: length_remove1)
  with \<open>pq' = remove1 m pq\<close> have "length pq' < length pq"
    by simp
  then show "((brk, g, c, end_id, dists, preds, pq', visited),
              (brk, g, c, end_id, dists, preds, pq, visited))
             \<in> (\<lambda>(brk, g, c, end_id, dists, preds, pq, visited).
                    card (fst ` set g - visited)) <*mlex*>
               measure (\<lambda>(brk, g, c, end_id, dists, preds, pq, visited). length pq)"
    by (simp add: mlex_iff)
next
  fix brk :: bool and g :: graph and c :: string and end_id :: int and dists :: dmap
    and preds :: pmap and pq :: heap and visited :: "int set" and x xs and m :: "int \<times> int" and pq' v r
    and dists' :: dmap and rp preds' pq''
  assume "snd m \<notin> visited" "map_of g (snd m) = Some v"
  then have "snd m \<in> fst ` set g - visited"
    by (auto dest: map_of_SomeD intro: rev_image_eqI)
  then have "card (fst ` set g - insert (snd m) visited) < card (fst ` set g - visited)"
    by (intro psubset_card_mono) auto
  then show "((brk, g, c, end_id, dists', preds', pq'', insert (snd m) visited),
              (brk, g, c, end_id, dists, preds, pq, visited))
             \<in> (\<lambda>(brk, g, c, end_id, dists, preds, pq, visited).
                    card (fst ` set g - visited)) <*mlex*>
               measure (\<lambda>(brk, g, c, end_id, dists, preds, pq, visited). length pq)"
    by (simp add: mlex_iff)
qed

declare dijkstra_loop.simps [simp del]

text \<open>
  The path reconstruction \<open>while current_id is not None\<close>: appends the current id and
  follows \<open>predecessors\<close>. Nothing in the loop itself bounds it, so it is a partial
  function: \<open>None\<close> stands for a walk that never ends.
\<close>

partial_function (option) reconstruct ::
  "pmap \<Rightarrow> int option \<Rightarrow> int list \<Rightarrow> (error + int list) option" where
  "reconstruct preds current_id path =
     (case current_id of
        None \<Rightarrow> Some (Inr path)
      | Some u \<Rightarrow>
          (case preds u of
             None \<Rightarrow> Some (Inl KeyError)
           | Some p \<Rightarrow> reconstruct preds p (path @ [u])))"

declare reconstruct.simps [code]

text \<open>
  \<open>Graph.dijkstra\<close> with the loop variant as a parameter; the source is
  \<open>dijkstra_with True\<close>. The outer \<open>option\<close> is \<open>None\<close> when the call does not return.
\<close>

definition dijkstra_with ::
  "bool \<Rightarrow> graph \<Rightarrow> int \<Rightarrow> int \<Rightarrow> string \<Rightarrow> (error + ecost \<times> int list) option" where
  "dijkstra_with brk g start_id end_id traffic_condition =
     (if map_of g start_id = None \<or> map_of g end_id = None then Some (Inl ValueError)
      else
        let distances = (map_of (map (\<lambda>(k, v). (k, Infinity)) g))(start_id \<mapsto> Fin 0);
            predecessors = map_of (map (\<lambda>(k, v). (k, None)) g)
        in case dijkstra_loop brk g traffic_condition end_id distances predecessors
                  [(0, start_id)] {} of
             Inl err \<Rightarrow> Some (Inl err)
           | Inr (dists, preds) \<Rightarrow>
               (case reconstruct preds (Some end_id) [] of
                  None \<Rightarrow> None
                | Some (Inl err) \<Rightarrow> Some (Inl err)
                | Some (Inr path) \<Rightarrow>
                    (case dists end_id of
                       None \<Rightarrow> Some (Inl KeyError)
                     | Some d \<Rightarrow> Some (Inr (d, rev path)))))"

definition dijkstra :: "graph \<Rightarrow> int \<Rightarrow> int \<Rightarrow> string \<Rightarrow> (error + ecost \<times> int list) option" where
  "dijkstra = dijkstra_with True"


section \<open>Route narrator\<close>

text \<open>
  \<open>math.degrees(math.atan2(dy, dx))\<close> is code of the Python library, not of this
  repository, and it computes in floating point. It is a parameter of the model:
  \<open>lib dx dy\<close> is the double that the call returns, read as the real number it
  denotes, or the \<open>OverflowError\<close> that the call raises for an integer beyond the
  range of a double. Nothing is assumed of \<open>lib\<close>.
\<close>

type_synonym angle_lib = "int \<Rightarrow> int \<Rightarrow> error + real"

text \<open>
  The \<open>if\<close>/\<open>elif\<close> chain of \<open>Graph._get_direction\<close> on the computed angle. The
  eight thresholds are doubles themselves, so comparing the numbers denoted is
  comparing the doubles.
\<close>

definition direction_of_angle :: "real \<Rightarrow> string" where
  "direction_of_angle angle =
     (if - 22.5 \<le> angle \<and> angle \<le> 22.5 then ''east''
      else if 22.5 < angle \<and> angle \<le> 67.5 then ''northeast''
      else if 67.5 < angle \<and> angle \<le> 112.5 then ''north''
      else if 112.5 < angle \<and> angle \<le> 157.5 then ''northwest''
      else if angle > 157.5 \<or> angle \<le> - 157.5 then ''west''
      else if - 157.5 < angle \<and> angle \<le> - 112.5 then ''southwest''
      else if - 112.5 < angle \<and> angle \<le> - 67.5 then ''south''
      else ''southeast'')"

text \<open>\<open>Graph._get_direction\<close>: the chain applied to what the library answers.\<close>

definition get_direction :: "angle_lib \<Rightarrow> int \<Rightarrow> int \<Rightarrow> error + string" where
  "get_direction lib dx dy =
     (case lib dx dy of
        Inl err \<Rightarrow> Inl err
      | Inr angle \<Rightarrow> Inr (direction_of_angle angle))"

text \<open>Decimal rendering of an integer, as an f-string prints it.\<close>

definition digit_char :: "nat \<Rightarrow> char" where
  "digit_char n = ''0123456789'' ! (n mod 10)"

function str_nat :: "nat \<Rightarrow> string" where
  "str_nat n = (if n < 10 then [digit_char n] else str_nat (n div 10) @ [digit_char n])"
  by pat_completeness auto
termination
  by (relation "measure id") auto

definition str_int :: "int \<Rightarrow> string" where
  "str_int i = (if i < 0 then CHR ''-'' # str_nat (nat (- i)) else str_nat (nat i))"



text \<open>
  The \<open>for i in range(len(path) - 1)\<close> loop of \<open>get_path_description\<close>, with its two
  accumulators. A missing vertex or a missing edge raises \<open>KeyError\<close>; an exception
  of the library call ends the loop as well.
\<close>

fun describe_steps ::
  "angle_lib \<Rightarrow> graph \<Rightarrow> string \<Rightarrow> int list \<Rightarrow> string list \<Rightarrow> int
     \<Rightarrow> error + (string list \<times> int)" where
  "describe_steps lib g c (current_id # next_id # rest) description total_time =
     (case map_of g current_id of
        None \<Rightarrow> Inl KeyError
      | Some current_vertex \<Rightarrow>
          (case map_of g next_id of
             None \<Rightarrow> Inl KeyError
           | Some next_vertex \<Rightarrow>
               (case map_of (edges current_vertex) next_id of
                  None \<Rightarrow> Inl KeyError
                | Some e \<Rightarrow>
                    let time = get_weight e c;
                        dx = vx next_vertex - vx current_vertex;
                        dy = vy next_vertex - vy current_vertex
                    in (case get_direction lib dx dy of
                          Inl err \<Rightarrow> Inl err
                        | Inr direction \<Rightarrow>
                            let line = ''From vertex '' @ str_int current_id @ '' go ''
                                         @ direction @ '' to vertex '' @ str_int next_id
                                         @ '' ('' @ str_int time @ '' minutes)''
                            in describe_steps lib g c (next_id # rest) (description @ [line])
                                 (total_time + time)))))"
| "describe_steps lib g c path description total_time = Inr (description, total_time)"


section \<open>Dispatch directory\<close>

text \<open>class PoliceDispatchSystem: the graph it refers to and the dictionary \<open>cops\<close>.\<close>

record dispatch =
  graph :: graph
  cops :: "(string \<times> int) list"

definition add_cop :: "dispatch \<Rightarrow> string \<Rightarrow> int \<Rightarrow> error + dispatch" where
  "add_cop s cop_id vertex_id =
     (if map_of (graph s) vertex_id = None then Inl ValueError
      else Inr (s\<lparr>cops := AList.update cop_id vertex_id (cops s)\<rparr>))"

definition remove_cop :: "dispatch \<Rightarrow> string \<Rightarrow> dispatch" where
  "remove_cop s cop_id =
     (if map_of (cops s) cop_id \<noteq> None then s\<lparr>cops := AList.delete cop_id (cops s)\<rparr> else s)"

text \<open>\<open>time < shortest_time\<close>, where either side may be \<open>float('infinity')\<close>.\<close>

fun ecost_less :: "ecost \<Rightarrow> ecost \<Rightarrow> bool" where
  "ecost_less (Fin a) (Fin b) = (a < b)"
| "ecost_less (Fin a) Infinity = True"
| "ecost_less Infinity b = False"

text \<open>
  The \<open>for cop_id, cop_location in self.cops.items()\<close> loop with its three
  running variables \<open>nearest_cop\<close>, \<open>shortest_time\<close>, \<open>best_path\<close>.
\<close>

fun nearest_loop ::
  "graph \<Rightarrow> int \<Rightarrow> string \<Rightarrow> (string \<times> int) list
     \<Rightarrow> string option \<times> ecost \<times> int list option
     \<Rightarrow> (error + string option \<times> ecost \<times> int list option) option" where
  "nearest_loop g crime_location c [] best = Some (Inr best)"
| "nearest_loop g crime_location c ((cop_id, cop_location) # rest)
       (nearest_cop, shortest_time, best_path) =
     (case dijkstra g cop_location crime_location c of
        None \<Rightarrow> None
      | Some (Inl err) \<Rightarrow> Some (Inl err)
      | Some (Inr (time, path)) \<Rightarrow>
          if ecost_less time shortest_time
          then nearest_loop g crime_location c rest (Some cop_id, time, Some path)
          else nearest_loop g crime_location c rest (nearest_cop, shortest_time, best_path))"

text \<open>
  \<open>PoliceDispatchSystem.find_nearest_cop\<close>; the result is the Python triple, each
  component possibly \<open>None\<close>.
\<close>

definition find_nearest_cop ::
  "dispatch \<Rightarrow> int \<Rightarrow> string
     \<Rightarrow> (error + string option \<times> ecost option \<times> int list option) option" where
  "find_nearest_cop s crime_location traffic_condition =
     (if cops s = [] then Some (Inr (None, None, None))
      else
        (case nearest_loop (graph s) crime_location traffic_condition (cops s)
                (None, Infinity, None) of
           None \<Rightarrow> None
         | Some (Inl err) \<Rightarrow> Some (Inl err)
         | Some (Inr (nearest_cop, shortest_time, best_path)) \<Rightarrow>
             Some (Inr (nearest_cop, Some shortest_time, best_path))))"


section \<open>Queries in state-passing form\<close>




section \<open>Example maps\<close>

text \<open>
  Maps are built as \<open>create_map\<close> builds one: every \<open>add_vertex\<close> call, then every
  \<open>add_edge\<close> call.
\<close>

definition create_from ::
  "(int \<times> int \<times> int) list \<Rightarrow> (int \<times> int \<times> int \<times> int \<times> int) list \<Rightarrow> graph" where
  "create_from vs es =
     fold (\<lambda>(a, b, l, n, r) g. case add_edge g a b l n r of Inr (e, g') \<Rightarrow> g' | Inl err \<Rightarrow> g) es
       (fold (\<lambda>(i, x, y) g. snd (add_vertex g i x y)) vs [])"

text \<open>Three locations on a line: 0 -- 1 -- 2, no direct connection 0 -- 2.\<close>

definition line_map :: graph where
  "line_map = create_from [(0, 0, 0), (1, 1, 0), (2, 2, 0)] [(0, 1, 3, 5, 9), (1, 2, 3, 5, 9)]"

text \<open>Two locations and no connection.\<close>

definition split_map :: graph where
  "split_map = create_from [(0, 0, 0), (1, 1, 0)] []"

text \<open>A map with a direct connection that is dearer than the detour.\<close>

definition detour_map :: graph where
  "detour_map = create_from [(0, 0, 0), (1, 1, 0), (2, 2, 0)]
     [(0, 1, 3, 5, 9), (1, 2, 3, 5, 9), (0, 2, 7, 12, 30)]"

text \<open>
  A directory over the line: R1 two steps from location 2, R2 and R3 both one step
  from it, assigned in this order.
\<close>

definition line_dispatch :: dispatch where
  "line_dispatch = \<lparr>graph = line_map, cops = [(''R1'', 0), (''R2'', 1), (''R3'', 1)]\<rparr>"

text \<open>A directory whose only cop cannot reach location 1.\<close>

definition split_dispatch :: dispatch where
  "split_dispatch = \<lparr>graph = split_map, cops = [(''R1'', 0)]\<rparr>"

section \<open>Notions used to state the properties\<close>

text \<open>\<open>self.vertices[u].edges[v]\<close>, when both lookups succeed.\<close>

definition edge_of :: "graph \<Rightarrow> int \<Rightarrow> int \<Rightarrow> edge option" where
  "edge_of g u v = (case map_of g u of None \<Rightarrow> None | Some vu \<Rightarrow> map_of (edges vu) v)"

text \<open>
  The cost of a vertex sequence under a condition, summed edge by edge; \<open>None\<close> when
  the sequence is empty, names a vertex that is not in the graph or takes a step
  that is not an edge.
\<close>

fun path_cost :: "graph \<Rightarrow> string \<Rightarrow> int list \<Rightarrow> int option" where
  "path_cost g c [] = None"
| "path_cost g c [u] = (if map_of g u = None then None else Some 0)"
| "path_cost g c (u # v # rest) =
     (case edge_of g u v of
        None \<Rightarrow> None
      | Some e \<Rightarrow>
          (case path_cost g c (v # rest) of
             None \<Rightarrow> None
           | Some t \<Rightarrow> Some (get_weight e c + t)))"

inductive reachable :: "graph \<Rightarrow> int \<Rightarrow> int \<Rightarrow> bool" for g :: graph and a :: int where
  here: "reachable g a a"
| step: "reachable g a u \<Longrightarrow> edge_of g u v \<noteq> None \<Longrightarrow> reachable g a v"

text \<open>
  What every graph built by \<open>add_vertex\<close> and \<open>add_edge\<close> satisfies: dictionary keys
  are unique, and a neighbour id names a vertex of the graph (vertices are never
  deleted).
\<close>

definition wf_graph :: "graph \<Rightarrow> bool" where
  "wf_graph g \<longleftrightarrow>
     distinct (map fst g) \<and>
     (\<forall>(k, v) \<in> set g. distinct (map fst (edges v)) \<and>
        (\<forall>(n, e) \<in> set (edges v). map_of g n \<noteq> None))"

text \<open>Every cop stands on a vertex of the graph, as \<open>add_cop\<close> checks.\<close>

definition wf_dispatch :: "dispatch \<Rightarrow> bool" where
  "wf_dispatch s \<longleftrightarrow> wf_graph (graph s) \<and> distinct (map fst (cops s)) \<and>
     (\<forall>(cop_id, loc) \<in> set (cops s). map_of (graph s) loc \<noteq> None)"

text \<open>
  The predecessor walk from \<open>v\<close> as a relation: \<open>chain preds v xs\<close> when following
  \<open>preds\<close> from \<open>v\<close> visits exactly \<open>xs\<close> and ends at a vertex without predecessor.
\<close>

inductive chain :: "pmap \<Rightarrow> int \<Rightarrow> int list \<Rightarrow> bool" for preds :: pmap where
  root: "preds v = Some None \<Longrightarrow> chain preds v [v]"
| link: "preds v = Some (Some p) \<Longrightarrow> chain preds p xs \<Longrightarrow> chain preds v (v # xs)"

text \<open>The loop invariant of \<open>dijkstra\<close>, for any edge costs.\<close>

definition tables_ok :: "graph \<Rightarrow> dmap \<Rightarrow> pmap \<Rightarrow> int set \<Rightarrow> bool" where
  "tables_ok g D P V \<longleftrightarrow>
     (\<forall>k. (D k = None \<longleftrightarrow> map_of g k = None) \<and> (P k = None \<longleftrightarrow> map_of g k = None)) \<and>
     (\<forall>k \<in> V. map_of g k \<noteq> None)"

definition source_ok :: "int \<Rightarrow> dmap \<Rightarrow> pmap \<Rightarrow> heap \<Rightarrow> int set \<Rightarrow> bool" where
  "source_ok s D P Q V \<longleftrightarrow>
     D s = Some (Fin 0) \<and> P s = Some None \<and> (s \<in> V \<or> (V = {} \<and> set Q = {(0, s)}))"

definition frontier_ok :: "graph \<Rightarrow> dmap \<Rightarrow> heap \<Rightarrow> int set \<Rightarrow> bool" where
  "frontier_ok g D Q V \<longleftrightarrow>
     (\<forall>(d, u) \<in> set Q. map_of g u \<noteq> None \<and>
        (u \<notin> V \<longrightarrow> (\<exists>du. D u = Some (Fin du) \<and> du \<le> d))) \<and>
     (\<forall>u du. u \<notin> V \<longrightarrow> D u = Some (Fin du) \<longrightarrow> (du, u) \<in> set Q)"

definition tree_ok :: "graph \<Rightarrow> string \<Rightarrow> int \<Rightarrow> dmap \<Rightarrow> pmap \<Rightarrow> int set \<Rightarrow> bool" where
  "tree_ok g c s D P V \<longleftrightarrow>
     (\<forall>v. v \<noteq> s \<longrightarrow> (D v = Some Infinity \<longleftrightarrow> P v = Some None)) \<and>
     (\<forall>v p. P v = Some (Some p) \<longrightarrow>
        p \<in> V \<and> (\<exists>dp e. D p = Some (Fin dp) \<and> edge_of g p v = Some e \<and>
                   D v = Some (Fin (dp + get_weight e c)))) \<and>
     (\<forall>v \<in> V. \<exists>xs dv. chain P v xs \<and> set xs \<subseteq> V \<and> D v = Some (Fin dv) \<and>
        path_cost g c (rev xs) = Some dv \<and> last xs = s) \<and>
     (\<forall>u \<in> V. \<forall>v. edge_of g u v \<noteq> None \<longrightarrow> (\<exists>dv. D v = Some (Fin dv)))"

definition inv ::
  "graph \<Rightarrow> string \<Rightarrow> int \<Rightarrow> dmap \<Rightarrow> pmap \<Rightarrow> heap \<Rightarrow> int set \<Rightarrow> bool" where
  "inv g c s D P Q V \<longleftrightarrow>
     tables_ok g D P V \<and> source_ok s D P Q V \<and> frontier_ok g D Q V \<and> tree_ok g c s D P V"

text \<open>
  How the loop can have ended: the frontier is empty, or (with the early exit) the
  target is the least entry of the frontier.
\<close>

definition final :: "bool \<Rightarrow> int \<Rightarrow> heap \<Rightarrow> bool" where
  "final brk end_id Q \<longleftrightarrow>
     (case Q of [] \<Rightarrow> True | x # xs \<Rightarrow> brk \<and> snd (heap_least x xs) = end_id)"

text \<open>
  The part of the invariant that needs non-negative costs: settled vertices carry
  the least cost of any path, their outgoing edges are relaxed, and nothing on the
  frontier is cheaper than a settled vertex.
\<close>

definition nonneg :: "graph \<Rightarrow> string \<Rightarrow> bool" where
  "nonneg g c \<longleftrightarrow> (\<forall>u v e. edge_of g u v = Some e \<longrightarrow> 0 \<le> get_weight e c)"

definition settled_ok :: "graph \<Rightarrow> string \<Rightarrow> int \<Rightarrow> dmap \<Rightarrow> heap \<Rightarrow> int set \<Rightarrow> bool" where
  "settled_ok g c s D Q V \<longleftrightarrow>
     (\<forall>v \<in> V. \<forall>p t dv. path_cost g c p = Some t \<longrightarrow> hd p = s \<longrightarrow> last p = v \<longrightarrow>
        D v = Some (Fin dv) \<longrightarrow> dv \<le> t) \<and>
     (\<forall>u \<in> V. \<forall>v e du. edge_of g u v = Some e \<longrightarrow> D u = Some (Fin du) \<longrightarrow>
        (\<exists>dv. D v = Some (Fin dv) \<and> dv \<le> du + get_weight e c)) \<and>
     (\<forall>v \<in> V. \<forall>dv. D v = Some (Fin dv) \<longrightarrow> (\<forall>(d, u) \<in> set Q. dv \<le> d))"

text \<open>
  The effect of the neighbour loop, entry by entry: \<open>improves\<close> says that the loop
  updates the entry of neighbour \<open>n\<close>; \<open>relaxed\<close> relates the tables and the frontier
  before and after the loop run for the vertex \<open>u\<close> popped with distance \<open>d\<close>.
\<close>

definition improves :: "string \<Rightarrow> int set \<Rightarrow> int \<Rightarrow> dmap \<Rightarrow> int \<Rightarrow> edge \<Rightarrow> bool" where
  "improves c V d D n e \<longleftrightarrow> n \<notin> V \<and> (\<exists>x. D n = Some x \<and> lt_ecost (d + get_weight e c) x)"

definition relaxed ::
  "graph \<Rightarrow> string \<Rightarrow> int \<Rightarrow> int \<Rightarrow> int set \<Rightarrow> dmap \<Rightarrow> pmap \<Rightarrow> heap
     \<Rightarrow> dmap \<Rightarrow> pmap \<Rightarrow> heap \<Rightarrow> bool" where
  "relaxed g c u d V' D P Q0 D' P' Q' \<longleftrightarrow>
     (\<forall>n. (D' n = D n \<and> P' n = P n) \<or>
        (n \<notin> V' \<and> (\<exists>e x. edge_of g u n = Some e \<and> D n = Some x \<and>
           lt_ecost (d + get_weight e c) x \<and> D' n = Some (Fin (d + get_weight e c)) \<and>
           P' n = Some (Some u) \<and> (d + get_weight e c, n) \<in> set Q'))) \<and>
     (\<forall>n \<in> V'. D' n = D n \<and> P' n = P n) \<and>
     (\<forall>n e. edge_of g u n = Some e \<longrightarrow> n \<notin> V' \<longrightarrow>
        (\<exists>dn. D' n = Some (Fin dn) \<and> dn \<le> d + get_weight e c)) \<and>
     set Q0 \<subseteq> set Q' \<and>
     (\<forall>(d', n) \<in> set Q'. (d', n) \<in> set Q0 \<or>
        (n \<notin> V' \<and> D' n = Some (Fin d') \<and>
         (\<exists>e. edge_of g u n = Some e \<and> d' = d + get_weight e c)))"

section \<open>Graph construction\<close>

lemma map_of_set_edge:
  "map_of (set_edge g a b e) =
     (case map_of g a of None \<Rightarrow> map_of g
      | Some v \<Rightarrow> (map_of g)(a \<mapsto> v\<lparr>edges := AList.update b e (edges v)\<rparr>))"
  by (auto simp: set_edge_def map_of_map_entry fun_eq_iff split: option.splits)

text \<open>
  C4 (as the code has it): \<open>add_vertex\<close> never fails. It always returns a fresh vertex
  with the given id and coordinates and no edges, and stores it under the id, replacing
  whatever vertex was stored there; every other id keeps its vertex.
\<close>

theorem add_vertex_overwrites:
  "fst (add_vertex g i x y) = \<lparr>vid = i, vx = x, vy = y, edges = []\<rparr> \<and>
   map_of (snd (add_vertex g i x y)) = (map_of g)(i \<mapsto> \<lparr>vid = i, vx = x, vy = y, edges = []\<rparr>)"
  by (simp add: add_vertex_def Let_def update_conv')

text \<open>
  C4 fails as stated: on a map that already holds id 1, \<open>add_vertex\<close> with id 1 goes
  through and the map is no longer the same.
\<close>

theorem add_vertex_duplicate_counterexample:
  "map_of line_map 1 \<noteq> None \<and> snd (add_vertex line_map 1 7 7) \<noteq> line_map"
  by code_simp

text \<open>
  C5 (as the code has it): \<open>add_edge\<close> does not look at the costs. It raises
  \<open>ValueError\<close> when an endpoint is missing; with both endpoints present it succeeds for
  any three costs, negative ones included, stores them unchanged in one edge and files
  that edge under both endpoints.
\<close>

theorem add_edge_any_cost:
  "(map_of g id1 = None \<or> map_of g id2 = None \<longrightarrow> add_edge g id1 id2 l n r = Inl ValueError) \<and>
   (map_of g id1 \<noteq> None \<and> map_of g id2 \<noteq> None \<longrightarrow>
      (\<exists>e g'. add_edge g id1 id2 l n r = Inr (e, g') \<and>
         weights e = \<lparr>w_light = l, w_normal = n, w_rush_hour = r\<rparr> \<and>
         (\<exists>v1. map_of g' id1 = Some v1 \<and> map_of (edges v1) id2 = Some e) \<and>
         (\<exists>v2. map_of g' id2 = Some v2 \<and> map_of (edges v2) id1 = Some e)))"
  by (auto simp: add_edge_def Let_def map_of_set_edge update_conv' split: option.splits)

theorem add_edge_any_cost_witness:
  "add_edge split_map 0 5 1 2 3 = Inl ValueError \<and>
   (\<exists>e g'. add_edge split_map 0 1 (- 3) (- 5) (- 9) = Inr (e, g') \<and>
         weights e = \<lparr>w_light = - 3, w_normal = - 5, w_rush_hour = - 9\<rparr> \<and>
         (\<exists>v1. map_of g' 0 = Some v1 \<and> map_of (edges v1) 1 = Some e) \<and>
         (\<exists>v2. map_of g' 1 = Some v2 \<and> map_of (edges v2) 0 = Some e))"
proof -
  have a: "map_of split_map 5 = None" by code_simp
  have b: "map_of split_map 0 \<noteq> None \<and> map_of split_map 1 \<noteq> None" by code_simp
  show ?thesis
    using add_edge_any_cost [of split_map 0 5 1 2 3]
      add_edge_any_cost [of split_map 0 1 "- 3" "- 5" "- 9"] a b
    by blast
qed

text \<open>
  C5 fails as stated: an \<open>add_edge\<close> call whose three costs are negative succeeds and
  the negative costs are in the map.
\<close>

theorem add_edge_negative_counterexample:
  "add_edge split_map 0 1 (- 3) (- 5) (- 9) =
     Inr (\<lparr>vertex1 = 0, vertex2 = 1,
            weights = \<lparr>w_light = - 3, w_normal = - 5, w_rush_hour = - 9\<rparr>\<rparr>,
          [(0, \<lparr>vid = 0, vx = 0, vy = 0, edges = [(1, \<lparr>vertex1 = 0, vertex2 = 1,
                 weights = \<lparr>w_light = - 3, w_normal = - 5, w_rush_hour = - 9\<rparr>\<rparr>)]\<rparr>),
           (1, \<lparr>vid = 1, vx = 1, vy = 0, edges = [(0, \<lparr>vertex1 = 0, vertex2 = 1,
                 weights = \<lparr>w_light = - 3, w_normal = - 5, w_rush_hour = - 9\<rparr>\<rparr>)]\<rparr>)])"
  by code_simp

section \<open>Shortest paths: the trivial query\<close>

lemma init_lookup:
  "map_of (map (\<lambda>(k, v). (k, c)) g) a = (case map_of g a of None \<Rightarrow> None | Some v \<Rightarrow> Some c)"
  by (induction g) auto

lemma reconstruct_root:
  "preds a = Some None \<Longrightarrow> reconstruct preds (Some a) path = Some (Inr (path @ [a]))"
  by (subst reconstruct.simps, simp, subst reconstruct.simps, simp)

lemma same_vertex_result:
  assumes "map_of g a \<noteq> None"
  shows "dijkstra g a a c = Some (Inr (Fin 0, [a]))"
proof -
  have loop: "dijkstra_loop True g c a D P [(0, a)] {} = Inr (D, P)" for D P
    by (subst dijkstra_loop.simps) simp
  have "map_of (map (\<lambda>(k, v). (k, None :: int option)) g) a = Some None"
    using assms by (auto simp: init_lookup)
  then have "reconstruct (map_of (map (\<lambda>(k, v). (k, None)) g)) (Some a) [] = Some (Inr [a])"
    using reconstruct_root [of _ a "[]"] by simp
  then show ?thesis
    using assms by (simp add: dijkstra_def dijkstra_with_def loop)
qed


text \<open>
  C3: for a vertex \<open>a\<close> of the graph and any condition, \<open>dijkstra\<close> from \<open>a\<close> to \<open>a\<close>
  returns cost 0 and the path \<open>[a]\<close>.
\<close>

theorem dijkstra_same_vertex:
  assumes "map_of g a \<noteq> None"
  shows "dijkstra g a a c = Some (Inr (Fin 0, [a]))"
  using assms by (rule same_vertex_result)

theorem dijkstra_same_vertex_witness:
  "map_of line_map 1 \<noteq> None \<and> dijkstra line_map 1 1 ''rush_hour'' = Some (Inr (Fin 0, [1]))"
proof -
  have h: "map_of line_map 1 \<noteq> None" by code_simp
  show ?thesis using h dijkstra_same_vertex [OF h, of "''rush_hour''"] by simp
qed

section \<open>The frontier and the neighbour loop\<close>

text \<open>
  \<open>heap_least\<close> returns an entry of the frontier, and no entry is smaller in the
  tuple order; in particular no entry has a smaller distance.
\<close>

lemma heap_least_in: "heap_least y ys \<in> set (y # ys)"
  by (induction ys arbitrary: y) auto

lemma tuple_le_trans: "tuple_le a b \<Longrightarrow> tuple_le b c \<Longrightarrow> tuple_le a c"
  by (cases a; cases b; cases c) auto

lemma tuple_le_total: "tuple_le a b \<or> tuple_le b a"
  by (cases a; cases b) auto

lemma tuple_le_refl: "tuple_le a a"
  by (cases a) auto

lemma heap_least_le_start: "tuple_le (heap_least y ys) y"
proof (induction ys arbitrary: y)
  case Nil
  show ?case by (simp add: tuple_le_refl)
next
  case (Cons x xs)
  show ?case
  proof (cases "tuple_le y x")
    case True
    then show ?thesis using Cons [of y] by simp
  next
    case False
    then have "tuple_le x y" using tuple_le_total by blast
    moreover have "tuple_le (heap_least x xs) x" by (rule Cons)
    ultimately have "tuple_le (heap_least x xs) y" using tuple_le_trans by blast
    then show ?thesis using False by simp
  qed
qed

lemma heap_least_le: "x \<in> set (y # ys) \<Longrightarrow> tuple_le (heap_least y ys) x"
proof (induction ys arbitrary: y)
  case Nil
  then show ?case by (simp add: tuple_le_refl)
next
  case (Cons z zs)
  show ?case
  proof (cases "x \<in> set zs")
    case True
    then show ?thesis using Cons.IH by simp
  next
    case False
    then have x: "x = y \<or> x = z" using Cons.prems by auto
    show ?thesis
    proof (cases "tuple_le y z")
      case True
      have eq: "heap_least y (z # zs) = heap_least y zs" using True by simp
      have "tuple_le (heap_least y zs) y" by (rule heap_least_le_start)
      then have "tuple_le (heap_least y zs) x" using True x tuple_le_trans by blast
      then show ?thesis using eq by simp
    next
      case False
      then have zy: "tuple_le z y" using tuple_le_total by blast
      have eq: "heap_least y (z # zs) = heap_least z zs" using False by simp
      have "tuple_le (heap_least z zs) z" by (rule heap_least_le_start)
      then have "tuple_le (heap_least z zs) x" using zy x tuple_le_trans by blast
      then show ?thesis using eq by simp
    qed
  qed
qed

lemma heap_least_fst: "x \<in> set (y # ys) \<Longrightarrow> fst (heap_least y ys) \<le> fst x"
  using heap_least_le [of x y ys] by (cases x; cases "heap_least y ys") auto

text \<open>
  The neighbour loop in closed form. Dictionary keys are unique, so every neighbour
  is met once: its entry is updated when the new total is strictly smaller, and is
  left alone otherwise; the frontier gains exactly the updated entries.
\<close>

lemma relax_closed:
  assumes "distinct (map fst es)" and "\<forall>(n, e) \<in> set es. n \<notin> V \<longrightarrow> D n \<noteq> None"
  shows "\<exists>D' P' Q'. relax c V u d es (D, P, Q) = Inr (D', P', Q') \<and>
     (\<forall>n. case map_of es n of
             None \<Rightarrow> D' n = D n \<and> P' n = P n
           | Some e \<Rightarrow>
               if improves c V d D n e
               then D' n = Some (Fin (d + get_weight e c)) \<and> P' n = Some (Some u) \<and>
                    (d + get_weight e c, n) \<in> set Q'
               else D' n = D n \<and> P' n = P n) \<and>
     set Q \<subseteq> set Q' \<and>
     (\<forall>(d', n) \<in> set Q'. (d', n) \<in> set Q \<or>
        (\<exists>e. map_of es n = Some e \<and> improves c V d D n e \<and> d' = d + get_weight e c))"
  using assms
proof (induction es arbitrary: D P Q)
  case Nil
  then show ?case by simp
next
  case (Cons a es)
  obtain n e where a: "a = (n, e)" by (cases a)
  have dist: "distinct (map fst es)" and nfresh: "n \<notin> fst ` set es"
    using Cons.prems(1) a by auto
  have none: "map_of es n = None"
    using nfresh by (simp add: map_of_eq_None_iff)
  show ?case
  proof (cases "improves c V d D n e")
    case False
    have step: "relax c V u d (a # es) (D, P, Q) = relax c V u d es (D, P, Q)"
      using False Cons.prems(2) a by (auto simp: improves_def Let_def split: option.splits)
    have pre: "\<forall>(n, e) \<in> set es. n \<notin> V \<longrightarrow> D n \<noteq> None"
      using Cons.prems(2) by auto
    from Cons.IH [OF dist pre, of P Q] obtain D' P' Q' where
      r: "relax c V u d es (D, P, Q) = Inr (D', P', Q')"
      and tab: "\<forall>m. case map_of es m of
             None \<Rightarrow> D' m = D m \<and> P' m = P m
           | Some e \<Rightarrow>
               if improves c V d D m e
               then D' m = Some (Fin (d + get_weight e c)) \<and> P' m = Some (Some u) \<and>
                    (d + get_weight e c, m) \<in> set Q'
               else D' m = D m \<and> P' m = P m"
      and sub: "set Q \<subseteq> set Q'"
      and new: "\<forall>(d', m) \<in> set Q'. (d', m) \<in> set Q \<or>
        (\<exists>e. map_of es m = Some e \<and> improves c V d D m e \<and> d' = d + get_weight e c)"
      by blast
    have tab': "case map_of (a # es) m of
             None \<Rightarrow> D' m = D m \<and> P' m = P m
           | Some e \<Rightarrow>
               if improves c V d D m e
               then D' m = Some (Fin (d + get_weight e c)) \<and> P' m = Some (Some u) \<and>
                    (d + get_weight e c, m) \<in> set Q'
               else D' m = D m \<and> P' m = P m" for m
    proof (cases "m = n")
      case True
      then show ?thesis using tab [rule_format, of n] none False a by simp
    next
      case False
      then show ?thesis using tab [rule_format, of m] a by simp
    qed
    have new': "\<forall>(d', m) \<in> set Q'. (d', m) \<in> set Q \<or>
        (\<exists>e. map_of (a # es) m = Some e \<and> improves c V d D m e \<and> d' = d + get_weight e c)"
      using new none a by fastforce
    have r': "relax c V u d (a # es) (D, P, Q) = Inr (D', P', Q')"
      using step r by simp
    show ?thesis using r' tab' sub new' by blast
  next
    case True
    define D1 where "D1 = D(n \<mapsto> Fin (d + get_weight e c))"
    define P1 where "P1 = P(n \<mapsto> Some u)"
    define Q1 where "Q1 = heappush Q (d + get_weight e c, n)"
    have step: "relax c V u d (a # es) (D, P, Q) = relax c V u d es (D1, P1, Q1)"
      using True a by (auto simp: improves_def Let_def D1_def P1_def Q1_def split: option.splits)
    have pre: "\<forall>(n, e) \<in> set es. n \<notin> V \<longrightarrow> D1 n \<noteq> None"
      using Cons.prems(2) by (auto simp: D1_def split: if_splits)
    have same: "improves c V d D1 m e' = improves c V d D m e'" if "m \<noteq> n" for m e'
      using that by (simp add: improves_def D1_def)
    from Cons.IH [OF dist pre, of P1 Q1] obtain D' P' Q' where
      r: "relax c V u d es (D1, P1, Q1) = Inr (D', P', Q')"
      and tab: "\<forall>m. case map_of es m of
             None \<Rightarrow> D' m = D1 m \<and> P' m = P1 m
           | Some e \<Rightarrow>
               if improves c V d D1 m e
               then D' m = Some (Fin (d + get_weight e c)) \<and> P' m = Some (Some u) \<and>
                    (d + get_weight e c, m) \<in> set Q'
               else D' m = D1 m \<and> P' m = P1 m"
      and sub: "set Q1 \<subseteq> set Q'"
      and new: "\<forall>(d', m) \<in> set Q'. (d', m) \<in> set Q1 \<or>
        (\<exists>e. map_of es m = Some e \<and> improves c V d D1 m e \<and> d' = d + get_weight e c)"
      by blast
    have tab': "case map_of (a # es) m of
             None \<Rightarrow> D' m = D m \<and> P' m = P m
           | Some e \<Rightarrow>
               if improves c V d D m e
               then D' m = Some (Fin (d + get_weight e c)) \<and> P' m = Some (Some u) \<and>
                    (d + get_weight e c, m) \<in> set Q'
               else D' m = D m \<and> P' m = P m" for m
    proof (cases "m = n")
      case eq: True
      have "D' n = D1 n" "P' n = P1 n" using tab [rule_format, of n] none by simp_all
      moreover have "(d + get_weight e c, n) \<in> set Q'" using sub by (auto simp: Q1_def heappush_def)
      ultimately show ?thesis using eq True a by (simp add: D1_def P1_def)
    next
      case neq: False
      show ?thesis
      proof (cases "map_of es m")
        case None
        then show ?thesis using tab [rule_format, of m] neq a by (simp add: D1_def P1_def)
      next
        case (Some e')
        then show ?thesis using tab [rule_format, of m] neq a same [OF neq, of e']
          by (simp add: D1_def P1_def)
      qed
    qed
    have sub': "set Q \<subseteq> set Q'" using sub by (auto simp: Q1_def heappush_def)
    have new': "(d', m) \<in> set Q \<or>
        (\<exists>e. map_of (a # es) m = Some e \<and> improves c V d D m e \<and> d' = d + get_weight e c)"
      if "(d', m) \<in> set Q'" for d' m
    proof -
      from new that have "(d', m) \<in> set Q1 \<or>
        (\<exists>e. map_of es m = Some e \<and> improves c V d D1 m e \<and> d' = d + get_weight e c)" by auto
      then show ?thesis
      proof
        assume "(d', m) \<in> set Q1"
        then show ?thesis using True a by (auto simp: Q1_def heappush_def)
      next
        assume "\<exists>e. map_of es m = Some e \<and> improves c V d D1 m e \<and> d' = d + get_weight e c"
        then obtain e' where e': "map_of es m = Some e'" "improves c V d D1 m e'"
          "d' = d + get_weight e' c" by blast
        then have "m \<noteq> n" using none by auto
        then show ?thesis using e' same a by auto
      qed
    qed
    have new'': "\<forall>(d', m) \<in> set Q'. (d', m) \<in> set Q \<or>
        (\<exists>e. map_of (a # es) m = Some e \<and> improves c V d D m e \<and> d' = d + get_weight e c)"
      using new' by blast
    have r': "relax c V u d (a # es) (D, P, Q) = Inr (D', P', Q')"
      using step r by simp
    show ?thesis
      using r' tab' sub' new'' by blast
  qed
qed

text \<open>
  One equation for each way through the body of the \<open>while\<close> loop.
\<close>

lemma loop_nil: "dijkstra_loop brk g c b D P [] V = Inr (D, P)"
  by (subst dijkstra_loop.simps) simp

lemma loop_break:
  "brk \<Longrightarrow> snd (heap_least x xs) = b \<Longrightarrow> dijkstra_loop brk g c b D P (x # xs) V = Inr (D, P)"
  by (subst dijkstra_loop.simps) (simp del: remove1.simps add: Let_def)

lemma loop_skip:
  "\<not> (brk \<and> snd (heap_least x xs) = b) \<Longrightarrow> snd (heap_least x xs) \<in> V \<Longrightarrow>
   dijkstra_loop brk g c b D P (x # xs) V
     = dijkstra_loop brk g c b D P (remove1 (heap_least x xs) (x # xs)) V"
  by (subst dijkstra_loop.simps) (auto simp del: remove1.simps simp add: Let_def)

lemma loop_visit:
  "\<not> (brk \<and> snd (heap_least x xs) = b) \<Longrightarrow> snd (heap_least x xs) \<notin> V \<Longrightarrow>
   map_of g (snd (heap_least x xs)) = Some v \<Longrightarrow>
   relax c (insert (snd (heap_least x xs)) V) (snd (heap_least x xs)) (fst (heap_least x xs))
     (edges v) (D, P, remove1 (heap_least x xs) (x # xs)) = Inr (D', P', Q') \<Longrightarrow>
   dijkstra_loop brk g c b D P (x # xs) V
     = dijkstra_loop brk g c b D' P' Q' (insert (snd (heap_least x xs)) V)"
  by (subst dijkstra_loop.simps) (auto simp del: remove1.simps simp add: Let_def)

text \<open>
  The proof rule for the loop: a predicate that holds at the start and is kept by
  a skipped pop and by a visit holds of some state with the returned tables, and the
  loop has ended as \<open>final\<close> says. The loop does not raise: a visit only needs the
  popped vertex to be in the graph and the neighbour loop to succeed.
\<close>

lemma loop_rule:
  assumes "I D P Q V"
    and "\<And>D P Q V x xs. I D P Q V \<Longrightarrow> Q = x # xs \<Longrightarrow>
           \<not> (brk \<and> snd (heap_least x xs) = b) \<Longrightarrow> snd (heap_least x xs) \<in> V \<Longrightarrow>
           I D P (remove1 (heap_least x xs) Q) V"
    and "\<And>D P Q V x xs. I D P Q V \<Longrightarrow> Q = x # xs \<Longrightarrow>
           \<not> (brk \<and> snd (heap_least x xs) = b) \<Longrightarrow> snd (heap_least x xs) \<notin> V \<Longrightarrow>
           \<exists>v D' P' Q'. map_of g (snd (heap_least x xs)) = Some v \<and>
             relax c (insert (snd (heap_least x xs)) V) (snd (heap_least x xs))
               (fst (heap_least x xs)) (edges v) (D, P, remove1 (heap_least x xs) Q)
               = Inr (D', P', Q') \<and>
             I D' P' Q' (insert (snd (heap_least x xs)) V)"
  shows "\<exists>D' P' Q' V'. dijkstra_loop brk g c b D P Q V = Inr (D', P') \<and>
           I D' P' Q' V' \<and> V \<subseteq> V' \<and> final brk b Q'"
  using assms
proof (induction brk g c b D P Q V rule: dijkstra_loop.induct)
  case (1 brk g c b D P Q V)
  note skip = "1.prems"(2) and visit = "1.prems"(3)
  show ?case
  proof (cases Q)
    case Nil
    have "final brk b Q" using Nil by (simp add: final_def)
    then show ?thesis using "1.prems"(1) Nil loop_nil by blast
  next
    case (Cons x xs)
    define m where "m = heap_least x xs"
    show ?thesis
    proof (cases "brk \<and> snd m = b")
      case True
      then have "dijkstra_loop brk g c b D P Q V = Inr (D, P)"
        using Cons loop_break [of brk x xs b] by (simp add: m_def)
      moreover have "final brk b Q" using Cons True by (simp add: final_def m_def)
      ultimately show ?thesis using "1.prems"(1) by blast
    next
      case nb: False
      show ?thesis
      proof (cases "snd m \<in> V")
        case True
        have eq: "dijkstra_loop brk g c b D P Q V = dijkstra_loop brk g c b D P (remove1 m Q) V"
          using loop_skip [of brk x xs b V g c D P] nb True unfolding m_def Cons by blast
        have I': "I D P (remove1 m Q) V"
          using skip [OF "1.prems"(1) Cons] nb True unfolding m_def by blast
        have "\<exists>D' P' Q' V'. dijkstra_loop brk g c b D P (remove1 m Q) V = Inr (D', P') \<and>
           I D' P' Q' V' \<and> V \<subseteq> V' \<and> final brk b Q'"
          using "1.IH"(1) [OF Cons m_def refl nb True I' skip visit] by blast
        then show ?thesis using eq by simp
      next
        case False
        from visit [OF "1.prems"(1) Cons] nb False obtain v D1 P1 Q1 where
          v: "map_of g (snd m) = Some v"
          and r: "relax c (insert (snd m) V) (snd m) (fst m) (edges v) (D, P, remove1 m Q)
                    = Inr (D1, P1, Q1)"
          and I': "I D1 P1 Q1 (insert (snd m) V)"
          unfolding m_def by blast
        have eq: "dijkstra_loop brk g c b D P Q V
                    = dijkstra_loop brk g c b D1 P1 Q1 (insert (snd m) V)"
          using loop_visit [of brk x xs b V g v c D P D1 P1 Q1] nb False v r
          unfolding m_def Cons by blast
        have "\<exists>D' P' Q' V'. dijkstra_loop brk g c b D1 P1 Q1 (insert (snd m) V) = Inr (D', P') \<and>
           I D' P' Q' V' \<and> insert (snd m) V \<subseteq> V' \<and> final brk b Q'"
          using "1.IH"(2) [OF Cons m_def refl nb False v r refl refl I' skip visit] by blast
        then show ?thesis using eq by auto
      qed
    qed
  qed
qed

lemma edge_of_Some: "map_of g u = Some v \<Longrightarrow> edge_of g u n = map_of (edges v) n"
  by (simp add: edge_of_def)

lemma wf_vertex:
  assumes "wf_graph g" "map_of g u = Some v"
  shows "distinct (map fst (edges v))"
    and "\<forall>(n, e) \<in> set (edges v). map_of g n \<noteq> None"
proof -
  have mem: "(u, v) \<in> set g" using assms(2) by (rule map_of_SomeD)
  have "\<forall>(k, v) \<in> set g. distinct (map fst (edges v)) \<and>
          (\<forall>(n, e) \<in> set (edges v). map_of g n \<noteq> None)"
    using assms(1) unfolding wf_graph_def by (rule conjunct2)
  from bspec [OF this mem]
  show "distinct (map fst (edges v))" and "\<forall>(n, e) \<in> set (edges v). map_of g n \<noteq> None"
    by simp_all
qed

lemma wf_edge_ends:
  assumes "wf_graph g" "edge_of g u n = Some e"
  shows "map_of g u \<noteq> None" and "map_of g n \<noteq> None"
proof -
  from assms(2) obtain v where v: "map_of g u = Some v" and e: "map_of (edges v) n = Some e"
    by (auto simp: edge_of_def split: option.splits)
  show "map_of g u \<noteq> None" using v by simp
  have "(n, e) \<in> set (edges v)" using e by (rule map_of_SomeD)
  then show "map_of g n \<noteq> None" using wf_vertex(2) [OF assms(1) v] by auto
qed

lemma not_lt_ecost: "\<not> lt_ecost a x \<Longrightarrow> \<exists>y. x = Fin y \<and> y \<le> a"
  by (cases x) auto

lemma relax_relaxed:
  assumes wf: "wf_graph g" and v: "map_of g u = Some v"
    and dom: "\<forall>k. D k = None \<longleftrightarrow> map_of g k = None"
  shows "\<exists>D' P' Q'. relax c V' u d (edges v) (D, P, Q0) = Inr (D', P', Q') \<and>
           relaxed g c u d V' D P Q0 D' P' Q'"
proof -
  let ?es = "edges v"
  have dist: "distinct (map fst ?es)" by (rule wf_vertex(1) [OF wf v])
  have ex: "\<forall>(n, e) \<in> set ?es. n \<notin> V' \<longrightarrow> D n \<noteq> None"
    using wf_vertex(2) [OF wf v] dom by auto
  from relax_closed [OF dist ex, of c u d P Q0] obtain D' P' Q' where
    r: "relax c V' u d ?es (D, P, Q0) = Inr (D', P', Q')"
    and tab: "\<And>n. case map_of ?es n of
             None \<Rightarrow> D' n = D n \<and> P' n = P n
           | Some e \<Rightarrow>
               if improves c V' d D n e
               then D' n = Some (Fin (d + get_weight e c)) \<and> P' n = Some (Some u) \<and>
                    (d + get_weight e c, n) \<in> set Q'
               else D' n = D n \<and> P' n = P n"
    and sub: "set Q0 \<subseteq> set Q'"
    and new: "\<And>d' n. (d', n) \<in> set Q' \<Longrightarrow> (d', n) \<in> set Q0 \<or>
        (\<exists>e. map_of ?es n = Some e \<and> improves c V' d D n e \<and> d' = d + get_weight e c)"
    by blast
  have eo: "edge_of g u n = map_of ?es n" for n by (rule edge_of_Some [OF v])
  have a: "(D' n = D n \<and> P' n = P n) \<or>
        (n \<notin> V' \<and> (\<exists>e x. edge_of g u n = Some e \<and> D n = Some x \<and>
           lt_ecost (d + get_weight e c) x \<and> D' n = Some (Fin (d + get_weight e c)) \<and>
           P' n = Some (Some u) \<and> (d + get_weight e c, n) \<in> set Q'))" for n
    using tab [of n] by (cases "map_of ?es n") (auto simp: eo improves_def split: if_splits)
  have b: "D' n = D n \<and> P' n = P n" if "n \<in> V'" for n
    using tab [of n] that by (cases "map_of ?es n") (auto simp: improves_def split: if_splits)
  have c: "\<exists>dn. D' n = Some (Fin dn) \<and> dn \<le> d + get_weight e c"
    if e: "edge_of g u n = Some e" and n: "n \<notin> V'" for n e
  proof -
    have me: "map_of ?es n = Some e" using e eo by simp
    have "map_of g n \<noteq> None" using wf_edge_ends(2) [OF wf e] .
    then obtain x where x: "D n = Some x" using dom by (cases "D n") auto
    show ?thesis
    proof (cases "lt_ecost (d + get_weight e c) x")
      case True
      then have "improves c V' d D n e" using n x by (simp add: improves_def)
      then show ?thesis using tab [of n] me by simp
    next
      case False
      then have ni: "\<not> improves c V' d D n e" using x by (simp add: improves_def)
      from not_lt_ecost [OF False] obtain y where "x = Fin y" "y \<le> d + get_weight e c" by blast
      then show ?thesis using tab [of n] me ni x by simp
    qed
  qed
  have d: "(d', n) \<in> set Q0 \<or>
        (n \<notin> V' \<and> D' n = Some (Fin d') \<and>
         (\<exists>e. edge_of g u n = Some e \<and> d' = d + get_weight e c))"
    if "(d', n) \<in> set Q'" for d' n
  proof -
    from new [OF that] show ?thesis
    proof
      assume "(d', n) \<in> set Q0" then show ?thesis by simp
    next
      assume "\<exists>e. map_of ?es n = Some e \<and> improves c V' d D n e \<and> d' = d + get_weight e c"
      then obtain e where e: "map_of ?es n = Some e" "improves c V' d D n e"
        "d' = d + get_weight e c" by blast
      then have "D' n = Some (Fin d')" using tab [of n] by simp
      moreover have "n \<notin> V'" using e(2) by (simp add: improves_def)
      ultimately show ?thesis using e eo by auto
    qed
  qed
  have "relaxed g c u d V' D P Q0 D' P' Q'"
    unfolding relaxed_def using a b c sub d by blast
  then show ?thesis using r by blast
qed

section \<open>The loop invariant\<close>

lemma chain_hd: "chain P v xs \<Longrightarrow> xs \<noteq> [] \<and> hd xs = v"
  by (induction rule: chain.induct) auto

lemma chain_cong: "chain P v xs \<Longrightarrow> \<forall>w \<in> set xs. P' w = P w \<Longrightarrow> chain P' v xs"
  by (induction rule: chain.induct) (auto intro: chain.intros)

lemma reconstruct_None: "reconstruct P None acc = Some (Inr acc)"
  by (subst reconstruct.simps) simp

lemma reconstruct_Some:
  "P u = Some p \<Longrightarrow> reconstruct P (Some u) acc = reconstruct P p (acc @ [u])"
  by (subst reconstruct.simps) simp

lemma chain_reconstruct:
  "chain P v xs \<Longrightarrow> reconstruct P (Some v) acc = Some (Inr (acc @ xs))"
proof (induction arbitrary: acc rule: chain.induct)
  case (root v)
  then show ?case by (simp add: reconstruct_Some reconstruct_None)
next
  case (link v p xs)
  then show ?case by (simp add: reconstruct_Some)
qed

lemma path_cost_snoc:
  "path_cost g c ys = Some t \<Longrightarrow> edge_of g (last ys) z = Some e \<Longrightarrow> map_of g z \<noteq> None \<Longrightarrow>
   path_cost g c (ys @ [z]) = Some (t + get_weight e c)"
proof (induction g c ys arbitrary: t rule: path_cost.induct)
  case (1 g c)
  then show ?case by simp
next
  case (2 g c u)
  then show ?case by (auto split: if_splits)
next
  case (3 g c u v rest)
  then show ?case by (auto split: option.splits)
qed

lemma path_cost_snocD:
  "path_cost g c (ys @ [z]) = Some t \<Longrightarrow> ys \<noteq> [] \<Longrightarrow>
   \<exists>t' e. path_cost g c ys = Some t' \<and> edge_of g (last ys) z = Some e \<and>
          t = t' + get_weight e c"
proof (induction g c ys arbitrary: t rule: path_cost.induct)
  case (1 g c)
  then show ?case by simp
next
  case (2 g c u)
  then show ?case
    by (auto simp: edge_of_def split: option.splits if_splits)
next
  case (3 g c u v rest)
  from "3.prems"(1) obtain e1 t1 where e1: "edge_of g u v = Some e1"
    and t1: "path_cost g c (v # rest @ [z]) = Some t1" and t: "t = get_weight e1 c + t1"
    by (auto split: option.splits)
  from "3.IH" [OF e1, of t1] t1 obtain t' e where
    "path_cost g c (v # rest) = Some t'" "edge_of g (last (v # rest)) z = Some e"
    "t1 = t' + get_weight e c"
    by auto
  then show ?case using e1 t by simp
qed

lemma path_cost_hd: "path_cost g c p = Some t \<Longrightarrow> p \<noteq> [] \<and> map_of g (hd p) \<noteq> None"
  by (induction g c p arbitrary: t rule: path_cost.induct)
     (auto simp: edge_of_def split: option.splits if_splits)

text \<open>
  What is known of a popped entry whose vertex is not yet visited: it is in the
  graph, its distance is the table entry of the vertex, and it is the least distance
  on the frontier.
\<close>

lemma pop_facts:
  assumes fr: "frontier_ok g D Q V" and Q: "Q = x # xs" and nv: "snd (heap_least x xs) \<notin> V"
  shows "heap_least x xs \<in> set Q"
    and "map_of g (snd (heap_least x xs)) \<noteq> None"
    and "D (snd (heap_least x xs)) = Some (Fin (fst (heap_least x xs)))"
    and "\<forall>(d, u) \<in> set Q. fst (heap_least x xs) \<le> d"
proof -
  let ?m = "heap_least x xs"
  obtain d u where m: "?m = (d, u)" by (cases ?m)
  show mem: "?m \<in> set Q" using heap_least_in [of x xs] Q by simp
  have q1: "map_of g u \<noteq> None \<and> (u \<notin> V \<longrightarrow> (\<exists>du. D u = Some (Fin du) \<and> du \<le> d))"
    using fr mem m unfolding frontier_ok_def by auto
  then show "map_of g (snd ?m) \<noteq> None" using m by simp
  from q1 nv m obtain du where du: "D u = Some (Fin du)" "du \<le> d" by auto
  then have "(du, u) \<in> set Q" using fr nv m unfolding frontier_ok_def by auto
  then have "fst ?m \<le> fst (du, u)" using heap_least_fst [of "(du, u)" x xs] Q by simp
  then have "d = du" using du m by simp
  then show "D (snd ?m) = Some (Fin (fst ?m))" using du m by simp
  show "\<forall>(d, u) \<in> set Q. fst ?m \<le> d"
    using heap_least_fst [of _ x xs] Q by fastforce
qed

lemma inv_skip:
  assumes I: "inv g c s D P Q V" and Q: "Q = x # xs" and v: "snd (heap_least x xs) \<in> V"
  shows "inv g c s D P (remove1 (heap_least x xs) Q) V"
proof -
  let ?m = "heap_least x xs"
  have so: "source_ok s D P (remove1 ?m Q) V"
    using I v unfolding inv_def source_ok_def by auto
  have fr: "frontier_ok g D (remove1 ?m Q) V"
    unfolding frontier_ok_def
  proof (intro conjI ballI allI impI)
    fix e assume "e \<in> set (remove1 ?m Q)"
    then have "e \<in> set Q" using set_remove1_subset [of ?m Q] by blast
    then show "case e of (d, u) \<Rightarrow> map_of g u \<noteq> None \<and>
        (u \<notin> V \<longrightarrow> (\<exists>du. D u = Some (Fin du) \<and> du \<le> d))"
      using I unfolding inv_def frontier_ok_def by blast
  next
    fix u du assume u: "u \<notin> V" "D u = Some (Fin du)"
    then have "(du, u) \<in> set Q" using I unfolding inv_def frontier_ok_def by blast
    moreover have "(du, u) \<noteq> ?m" using u(1) v by (metis snd_conv)
    ultimately show "(du, u) \<in> set (remove1 ?m Q)" by simp
  qed
  show ?thesis using I so fr unfolding inv_def by simp
qed

lemma relaxedD:
  assumes "relaxed g c u d V' D P Q0 D' P' Q'"
  shows "\<And>n. (D' n = D n \<and> P' n = P n) \<or>
        (n \<notin> V' \<and> (\<exists>e x. edge_of g u n = Some e \<and> D n = Some x \<and>
           lt_ecost (d + get_weight e c) x \<and> D' n = Some (Fin (d + get_weight e c)) \<and>
           P' n = Some (Some u) \<and> (d + get_weight e c, n) \<in> set Q'))"
    and "\<And>n. n \<in> V' \<Longrightarrow> D' n = D n \<and> P' n = P n"
    and "\<And>n e. edge_of g u n = Some e \<Longrightarrow> n \<notin> V' \<Longrightarrow>
        \<exists>dn. D' n = Some (Fin dn) \<and> dn \<le> d + get_weight e c"
    and "set Q0 \<subseteq> set Q'"
    and "\<And>d' n. (d', n) \<in> set Q' \<Longrightarrow> (d', n) \<in> set Q0 \<or>
        (n \<notin> V' \<and> D' n = Some (Fin d') \<and>
         (\<exists>e. edge_of g u n = Some e \<and> d' = d + get_weight e c))"
    and "\<And>n y. D n = Some (Fin y) \<Longrightarrow> \<exists>y'. D' n = Some (Fin y') \<and> y' \<le> y"
proof -
  show a: "\<And>n. (D' n = D n \<and> P' n = P n) \<or>
        (n \<notin> V' \<and> (\<exists>e x. edge_of g u n = Some e \<and> D n = Some x \<and>
           lt_ecost (d + get_weight e c) x \<and> D' n = Some (Fin (d + get_weight e c)) \<and>
           P' n = Some (Some u) \<and> (d + get_weight e c, n) \<in> set Q'))"
    using assms unfolding relaxed_def by blast
  show "\<And>n. n \<in> V' \<Longrightarrow> D' n = D n \<and> P' n = P n"
    using assms unfolding relaxed_def by blast
  show "\<And>n e. edge_of g u n = Some e \<Longrightarrow> n \<notin> V' \<Longrightarrow>
        \<exists>dn. D' n = Some (Fin dn) \<and> dn \<le> d + get_weight e c"
    using assms unfolding relaxed_def by blast
  show "set Q0 \<subseteq> set Q'"
    using assms unfolding relaxed_def by blast
  show "\<And>d' n. (d', n) \<in> set Q' \<Longrightarrow> (d', n) \<in> set Q0 \<or>
        (n \<notin> V' \<and> D' n = Some (Fin d') \<and>
         (\<exists>e. edge_of g u n = Some e \<and> d' = d + get_weight e c))"
    using assms unfolding relaxed_def by blast
  show "\<exists>y'. D' n = Some (Fin y') \<and> y' \<le> y" if "D n = Some (Fin y)" for n y
    using a [of n] that by auto
qed

lemma inv_tables:
  assumes wf: "wf_graph g" and I: "inv g c s D P Q V"
    and u: "map_of g u \<noteq> None"
    and R: "relaxed g c u d (insert u V) D P Q0 D' P' Q'"
  shows "tables_ok g D' P' (insert u V)"
proof -
  have T: "\<And>k. (D k = None \<longleftrightarrow> map_of g k = None) \<and> (P k = None \<longleftrightarrow> map_of g k = None)"
    and TV: "\<And>k. k \<in> V \<Longrightarrow> map_of g k \<noteq> None"
    using I unfolding inv_def tables_ok_def by blast+
  have "(D' k = None \<longleftrightarrow> map_of g k = None) \<and> (P' k = None \<longleftrightarrow> map_of g k = None)" for k
    using relaxedD(1) [OF R, of k]
  proof
    assume "D' k = D k \<and> P' k = P k"
    then show ?thesis using T [of k] by simp
  next
    assume "k \<notin> insert u V \<and> (\<exists>e x. edge_of g u k = Some e \<and> D k = Some x \<and>
           lt_ecost (d + get_weight e c) x \<and> D' k = Some (Fin (d + get_weight e c)) \<and>
           P' k = Some (Some u) \<and> (d + get_weight e c, k) \<in> set Q')"
    then obtain e where "edge_of g u k = Some e" "D' k = Some (Fin (d + get_weight e c))"
      "P' k = Some (Some u)" by blast
    then show ?thesis using wf_edge_ends(2) [OF wf] by auto
  qed
  then show ?thesis using TV u unfolding tables_ok_def by auto
qed

lemma inv_source:
  assumes I: "inv g c s D P Q V" and Q: "Q = x # xs" and m: "heap_least x xs = (d, u)"
    and R: "relaxed g c u d (insert u V) D P Q0 D' P' Q'"
  shows "source_ok s D' P' Q' (insert u V)"
proof -
  have S: "D s = Some (Fin 0)" "P s = Some None" "s \<in> V \<or> (V = {} \<and> set Q = {(0, s)})"
    using I unfolding inv_def source_ok_def by blast+
  have "heap_least x xs \<in> set Q" using heap_least_in [of x xs] Q by simp
  then have "s \<in> insert u V" using S(3) m by auto
  then show ?thesis using relaxedD(2) [OF R, of s] S unfolding source_ok_def by simp
qed

lemma inv_frontier:
  assumes wf: "wf_graph g" and I: "inv g c s D P Q V"
    and m: "snd m = u"
    and R: "relaxed g c u d (insert u V) D P (remove1 m Q) D' P' Q'"
  shows "frontier_ok g D' Q' (insert u V)"
proof -
  have Q1: "\<And>d' n. (d', n) \<in> set Q \<Longrightarrow> map_of g n \<noteq> None \<and>
        (n \<notin> V \<longrightarrow> (\<exists>dn. D n = Some (Fin dn) \<and> dn \<le> d'))"
    and Q2: "\<And>n dn. n \<notin> V \<Longrightarrow> D n = Some (Fin dn) \<Longrightarrow> (dn, n) \<in> set Q"
    using I unfolding inv_def frontier_ok_def by blast+
  have a: "map_of g n \<noteq> None \<and>
        (n \<notin> insert u V \<longrightarrow> (\<exists>dn. D' n = Some (Fin dn) \<and> dn \<le> d'))"
    if "(d', n) \<in> set Q'" for d' n
    using relaxedD(5) [OF R that]
  proof
    assume "(d', n) \<in> set (remove1 m Q)"
    then have q: "(d', n) \<in> set Q" using set_remove1_subset [of m Q] by blast
    show ?thesis
    proof (intro conjI impI)
      show "map_of g n \<noteq> None" using Q1 [OF q] by simp
      assume "n \<notin> insert u V"
      then obtain dn where "D n = Some (Fin dn)" "dn \<le> d'" using Q1 [OF q] by auto
      then show "\<exists>dn. D' n = Some (Fin dn) \<and> dn \<le> d'"
        using relaxedD(6) [OF R, of n dn] by fastforce
    qed
  next
    assume "n \<notin> insert u V \<and> D' n = Some (Fin d') \<and>
         (\<exists>e. edge_of g u n = Some e \<and> d' = d + get_weight e c)"
    then show ?thesis using wf_edge_ends(2) [OF wf] by blast
  qed
  have b: "(dn, n) \<in> set Q'" if n: "n \<notin> insert u V" and dn: "D' n = Some (Fin dn)" for n dn
    using relaxedD(1) [OF R, of n]
  proof
    assume "D' n = D n \<and> P' n = P n"
    then have "(dn, n) \<in> set Q" using Q2 [of n dn] n dn by simp
    moreover have "(dn, n) \<noteq> m" using n m by auto
    ultimately have "(dn, n) \<in> set (remove1 m Q)" by simp
    then show ?thesis using relaxedD(4) [OF R] by blast
  next
    assume "n \<notin> insert u V \<and> (\<exists>e x. edge_of g u n = Some e \<and> D n = Some x \<and>
           lt_ecost (d + get_weight e c) x \<and> D' n = Some (Fin (d + get_weight e c)) \<and>
           P' n = Some (Some u) \<and> (d + get_weight e c, n) \<in> set Q')"
    then show ?thesis using dn by auto
  qed
  show ?thesis unfolding frontier_ok_def using a b by blast
qed

text \<open>
  A visit keeps the predecessor tree: the visited vertices keep their entries, the
  newly visited vertex has a predecessor chain through visited vertices only, and
  the chain read backwards is a path of the cost recorded for the vertex.
\<close>

lemma inv_tree:
  assumes wf: "wf_graph g" and I: "inv g c s D P Q V"
    and ug: "map_of g u \<noteq> None" and Du: "D u = Some (Fin d)"
    and R: "relaxed g c u d (insert u V) D P Q0 D' P' Q'"
  shows "tree_ok g c s D' P' (insert u V)"
proof -
  let ?V' = "insert u V"
  have Tb: "\<And>k. (D k = None \<longleftrightarrow> map_of g k = None) \<and> (P k = None \<longleftrightarrow> map_of g k = None)"
    using I unfolding inv_def tables_ok_def by blast
  have S: "D s = Some (Fin 0)" "P s = Some None"
    using I unfolding inv_def source_ok_def by blast+
  have T3: "\<And>v. v \<noteq> s \<Longrightarrow> (D v = Some Infinity \<longleftrightarrow> P v = Some None)"
    and T2: "\<And>v p. P v = Some (Some p) \<Longrightarrow>
        p \<in> V \<and> (\<exists>dp e. D p = Some (Fin dp) \<and> edge_of g p v = Some e \<and>
                   D v = Some (Fin (dp + get_weight e c)))"
    and T4: "\<And>v. v \<in> V \<Longrightarrow> \<exists>xs dv. chain P v xs \<and> set xs \<subseteq> V \<and> D v = Some (Fin dv) \<and>
        path_cost g c (rev xs) = Some dv \<and> last xs = s"
    and T5: "\<And>w v. w \<in> V \<Longrightarrow> edge_of g w v \<noteq> None \<Longrightarrow> \<exists>dv. D v = Some (Fin dv)"
    using I unfolding inv_def tree_ok_def by blast+
  note R1 = relaxedD(1) [OF R] and R2 = relaxedD(2) [OF R] and R3 = relaxedD(3) [OF R]
    and R6 = relaxedD(6) [OF R]
  have a: "D' v = Some Infinity \<longleftrightarrow> P' v = Some None" if "v \<noteq> s" for v
    using R1 [of v] T3 [OF that] by auto
  have b: "p \<in> ?V' \<and> (\<exists>dp e. D' p = Some (Fin dp) \<and> edge_of g p v = Some e \<and>
                   D' v = Some (Fin (dp + get_weight e c)))"
    if pv: "P' v = Some (Some p)" for v p
    using R1 [of v]
  proof
    assume same: "D' v = D v \<and> P' v = P v"
    then have "P v = Some (Some p)" using pv by simp
    from T2 [OF this] obtain dp e where p: "p \<in> V" "D p = Some (Fin dp)"
      "edge_of g p v = Some e" "D v = Some (Fin (dp + get_weight e c))" by blast
    have "D' p = D p" using R2 [of p] p(1) by simp
    then show ?thesis using p same by auto
  next
    assume "v \<notin> ?V' \<and> (\<exists>e x. edge_of g u v = Some e \<and> D v = Some x \<and>
           lt_ecost (d + get_weight e c) x \<and> D' v = Some (Fin (d + get_weight e c)) \<and>
           P' v = Some (Some u) \<and> (d + get_weight e c, v) \<in> set Q')"
    then obtain e where e: "edge_of g u v = Some e" "D' v = Some (Fin (d + get_weight e c))"
      "P' v = Some (Some u)" by blast
    have "D' u = Some (Fin d)" using R2 [of u] Du by simp
    then show ?thesis using e pv by auto
  qed
  have chainP: "\<exists>xs dv. chain P v xs \<and> set xs \<subseteq> ?V' \<and> D v = Some (Fin dv) \<and>
        path_cost g c (rev xs) = Some dv \<and> last xs = s" if v: "v \<in> ?V'" for v
  proof (cases "v \<in> V")
    case True
    from T4 [OF True] show ?thesis by blast
  next
    case False
    then have vu: "v = u" using v by simp
    show ?thesis
    proof (cases "u = s")
      case True
      have "chain P s [s]" using S(2) by (rule chain.root)
      moreover have "path_cost g c (rev [s]) = Some 0" using ug True by simp
      ultimately show ?thesis using S(1) True vu by auto
    next
      case us: False
      have "P u \<noteq> Some None" using T3 [OF us] Du by simp
      moreover have "P u \<noteq> None" using Tb [of u] ug by simp
      ultimately obtain p where pu: "P u = Some (Some p)" by (cases "P u") auto
      from T2 [OF pu] Du obtain dp e where p: "p \<in> V" "D p = Some (Fin dp)"
        "edge_of g p u = Some e" "d = dp + get_weight e c" by auto
      from T4 [OF p(1)] p(2) obtain xs where xs: "chain P p xs" "set xs \<subseteq> V"
        "path_cost g c (rev xs) = Some dp" "last xs = s" by auto
      have ne: "xs \<noteq> []" and hd: "hd xs = p" using chain_hd [OF xs(1)] by simp_all
      have "chain P u (u # xs)" using pu xs(1) by (rule chain.link)
      moreover have "set (u # xs) \<subseteq> ?V'" using xs(2) by auto
      moreover have "path_cost g c (rev (u # xs)) = Some d"
      proof -
        have "last (rev xs) = p" using ne hd by (simp add: last_rev)
        then have "path_cost g c (rev xs @ [u]) = Some (dp + get_weight e c)"
          using path_cost_snoc [OF xs(3), of u e] p(3) ug by simp
        then show ?thesis using p(4) by simp
      qed
      moreover have "last (u # xs) = s" using ne xs(4) by simp
      ultimately show ?thesis using Du vu by blast
    qed
  qed
  have c: "\<exists>xs dv. chain P' v xs \<and> set xs \<subseteq> ?V' \<and> D' v = Some (Fin dv) \<and>
        path_cost g c (rev xs) = Some dv \<and> last xs = s" if v: "v \<in> ?V'" for v
  proof -
    from chainP [OF v] obtain xs dv where xs: "chain P v xs" "set xs \<subseteq> ?V'"
      "D v = Some (Fin dv)" "path_cost g c (rev xs) = Some dv" "last xs = s" by blast
    have "\<forall>w \<in> set xs. P' w = P w" using R2 xs(2) by blast
    then have "chain P' v xs" using chain_cong [OF xs(1)] by blast
    moreover have "D' v = Some (Fin dv)" using R2 [OF v] xs(3) by simp
    ultimately show ?thesis using xs by blast
  qed
  have fin: "\<exists>dv. D v = Some (Fin dv)" if "v \<in> ?V'" for v
    using chainP [OF that] by blast
  have e: "\<exists>dv. D' v = Some (Fin dv)" if w: "w \<in> ?V'" and ed: "edge_of g w v \<noteq> None" for w v
  proof (cases "v \<in> ?V'")
    case True
    from fin [OF True] obtain dv where "D v = Some (Fin dv)" by blast
    from R6 [OF this] show ?thesis by blast
  next
    case False
    show ?thesis
    proof (cases "w \<in> V")
      case True
      from T5 [OF True ed] obtain dv where "D v = Some (Fin dv)" by blast
      from R6 [OF this] show ?thesis by blast
    next
      case wV: False
      then have "w = u" using w by simp
      then obtain e where "edge_of g u v = Some e" using ed by auto
      from R3 [OF this False] show ?thesis by blast
    qed
  qed
  have A: "\<forall>v. v \<noteq> s \<longrightarrow> (D' v = Some Infinity \<longleftrightarrow> P' v = Some None)"
    using a by (intro allI impI)
  have B: "\<forall>v p. P' v = Some (Some p) \<longrightarrow>
        p \<in> ?V' \<and> (\<exists>dp e. D' p = Some (Fin dp) \<and> edge_of g p v = Some e \<and>
                   D' v = Some (Fin (dp + get_weight e c)))"
    using b by (intro allI impI)
  have C: "\<forall>v \<in> ?V'. \<exists>xs dv. chain P' v xs \<and> set xs \<subseteq> ?V' \<and> D' v = Some (Fin dv) \<and>
        path_cost g c (rev xs) = Some dv \<and> last xs = s"
    using c by (intro ballI)
  have E: "\<forall>w \<in> ?V'. \<forall>v. edge_of g w v \<noteq> None \<longrightarrow> (\<exists>dv. D' v = Some (Fin dv))"
    using e by (intro ballI allI impI)
  show ?thesis unfolding tree_ok_def using A B C E by (intro conjI)
qed

lemma inv_step:
  assumes wf: "wf_graph g" and I: "inv g c s D P Q V" and Q: "Q = x # xs"
    and nv: "snd (heap_least x xs) \<notin> V"
    and R: "relaxed g c (snd (heap_least x xs)) (fst (heap_least x xs))
              (insert (snd (heap_least x xs)) V) D P (remove1 (heap_least x xs) Q) D' P' Q'"
  shows "inv g c s D' P' Q' (insert (snd (heap_least x xs)) V)"
proof -
  have fr: "frontier_ok g D Q V" using I unfolding inv_def by simp
  note pf = pop_facts [OF fr Q nv]
  have "tables_ok g D' P' (insert (snd (heap_least x xs)) V)"
    using inv_tables [OF wf I pf(2) R] .
  moreover have "source_ok s D' P' Q' (insert (snd (heap_least x xs)) V)"
    using inv_source [OF I Q _ R] by simp
  moreover have "frontier_ok g D' Q' (insert (snd (heap_least x xs)) V)"
    using inv_frontier [OF wf I _ R] by simp
  moreover have "tree_ok g c s D' P' (insert (snd (heap_least x xs)) V)"
    using inv_tree [OF wf I pf(2) pf(3) R] .
  ultimately show ?thesis unfolding inv_def by simp
qed

lemma inv_visit:
  assumes wf: "wf_graph g" and I: "inv g c s D P Q V" and Q: "Q = x # xs"
    and nv: "snd (heap_least x xs) \<notin> V"
  shows "\<exists>v D' P' Q'. map_of g (snd (heap_least x xs)) = Some v \<and>
           relax c (insert (snd (heap_least x xs)) V) (snd (heap_least x xs))
             (fst (heap_least x xs)) (edges v) (D, P, remove1 (heap_least x xs) Q)
             = Inr (D', P', Q') \<and>
           relaxed g c (snd (heap_least x xs)) (fst (heap_least x xs))
              (insert (snd (heap_least x xs)) V) D P (remove1 (heap_least x xs) Q) D' P' Q' \<and>
           inv g c s D' P' Q' (insert (snd (heap_least x xs)) V)"
proof -
  have fr: "frontier_ok g D Q V" using I unfolding inv_def by simp
  from pop_facts(2) [OF fr Q nv] obtain v where v: "map_of g (snd (heap_least x xs)) = Some v"
    by auto
  have dom: "\<forall>k. D k = None \<longleftrightarrow> map_of g k = None"
    using I unfolding inv_def tables_ok_def by blast
  from relax_relaxed [OF wf v dom] obtain D' P' Q' where
    r: "relax c (insert (snd (heap_least x xs)) V) (snd (heap_least x xs))
             (fst (heap_least x xs)) (edges v) (D, P, remove1 (heap_least x xs) Q)
             = Inr (D', P', Q')"
    and R: "relaxed g c (snd (heap_least x xs)) (fst (heap_least x xs))
              (insert (snd (heap_least x xs)) V) D P (remove1 (heap_least x xs) Q) D' P' Q'"
    by blast
  show ?thesis using v r R inv_step [OF wf I Q nv R] by blast
qed

lemma inv_init:
  assumes "map_of g s \<noteq> None"
  shows "inv g c s ((map_of (map (\<lambda>(k, v). (k, Infinity)) g))(s \<mapsto> Fin 0))
           (map_of (map (\<lambda>(k, v). (k, None)) g)) [(0, s)] {}"
  using assms
  unfolding inv_def tables_ok_def source_ok_def frontier_ok_def tree_ok_def
  by (auto simp: init_lookup split: option.splits)

lemma loop_inv:
  assumes wf: "wf_graph g" and I: "inv g c s D P Q V"
  shows "\<exists>D' P' Q' V'. dijkstra_loop brk g c b D P Q V = Inr (D', P') \<and>
           inv g c s D' P' Q' V' \<and> V \<subseteq> V' \<and> final brk b Q'"
proof (rule loop_rule [where I = "inv g c s", OF I])
  fix D P Q V x xs
  assume "inv g c s D P Q V" "Q = x # xs" "snd (heap_least x xs) \<in> V"
  then show "inv g c s D P (remove1 (heap_least x xs) Q) V" by (rule inv_skip)
next
  fix D P Q V x xs
  assume "inv g c s D P Q V" "Q = x # xs" "snd (heap_least x xs) \<notin> V"
  then show "\<exists>v D' P' Q'. map_of g (snd (heap_least x xs)) = Some v \<and>
           relax c (insert (snd (heap_least x xs)) V) (snd (heap_least x xs))
             (fst (heap_least x xs)) (edges v) (D, P, remove1 (heap_least x xs) Q)
             = Inr (D', P', Q') \<and>
           inv g c s D' P' Q' (insert (snd (heap_least x xs)) V)"
    using inv_visit [OF wf, of c s D P Q V x xs] by blast
qed

section \<open>What the shortest-path query returns\<close>

text \<open>
  From the invariant: the predecessor walk from any vertex of the graph ends, and
  either the vertex has infinite cost and the walk is the vertex alone, or the walk
  read from the source is a path of the recorded finite cost.
\<close>

lemma chain_exists:
  assumes I: "inv g c s D P Q V" and b: "map_of g b \<noteq> None"
  shows "\<exists>xs t. chain P b xs \<and> set xs \<subseteq> insert b V \<and> D b = Some t \<and>
           (case t of
              Infinity \<Rightarrow> xs = [b] \<and> b \<noteq> s
            | Fin d \<Rightarrow> path_cost g c (rev xs) = Some d \<and> last xs = s)"
proof -
  have Tb: "\<And>k. (D k = None \<longleftrightarrow> map_of g k = None) \<and> (P k = None \<longleftrightarrow> map_of g k = None)"
    using I unfolding inv_def tables_ok_def by blast
  have S: "D s = Some (Fin 0)" "P s = Some None"
    using I unfolding inv_def source_ok_def by blast+
  have T3: "\<And>v. v \<noteq> s \<Longrightarrow> (D v = Some Infinity \<longleftrightarrow> P v = Some None)"
    and T2: "\<And>v p. P v = Some (Some p) \<Longrightarrow>
        p \<in> V \<and> (\<exists>dp e. D p = Some (Fin dp) \<and> edge_of g p v = Some e \<and>
                   D v = Some (Fin (dp + get_weight e c)))"
    and T4: "\<And>v. v \<in> V \<Longrightarrow> \<exists>xs dv. chain P v xs \<and> set xs \<subseteq> V \<and> D v = Some (Fin dv) \<and>
        path_cost g c (rev xs) = Some dv \<and> last xs = s"
    using I unfolding inv_def tree_ok_def by blast+
  have "P b \<noteq> None" using Tb [of b] b by simp
  then consider "P b = Some None" | p where "P b = Some (Some p)" by (cases "P b") auto
  then show ?thesis
  proof cases
    case 1
    then have ch: "chain P b [b]" by (rule chain.root)
    show ?thesis
    proof (cases "b = s")
      case True
      have "path_cost g c (rev [b]) = Some 0" using b by simp
      then show ?thesis using ch S(1) True by auto
    next
      case False
      then have "D b = Some Infinity" using T3 [OF False] 1 by simp
      then show ?thesis using ch False by auto
    qed
  next
    case 2
    from T2 [OF 2] obtain dp e where p: "p \<in> V" "D p = Some (Fin dp)"
      "edge_of g p b = Some e" "D b = Some (Fin (dp + get_weight e c))" by blast
    from T4 [OF p(1)] p(2) obtain xs where xs: "chain P p xs" "set xs \<subseteq> V"
      "path_cost g c (rev xs) = Some dp" "last xs = s" by auto
    have ne: "xs \<noteq> []" and hd: "hd xs = p" using chain_hd [OF xs(1)] by simp_all
    have ch: "chain P b (b # xs)" using 2 xs(1) by (rule chain.link)
    have sub: "set (b # xs) \<subseteq> insert b V" using xs(2) by auto
    have "last (rev xs) = p" using ne hd by (simp add: last_rev)
    then have "path_cost g c (rev xs @ [b]) = Some (dp + get_weight e c)"
      using path_cost_snoc [OF xs(3), of b e] p(3) b by simp
    then have pc: "path_cost g c (rev (b # xs)) = Some (dp + get_weight e c)" by simp
    have la: "last (b # xs) = s" using ne xs(4) by simp
    show ?thesis using ch sub p(4) pc la by fastforce
  qed
qed

lemma reachable_cons: "reachable g v w \<Longrightarrow> edge_of g u v \<noteq> None \<Longrightarrow> reachable g u w"
proof (induction rule: reachable.induct)
  case here
  show ?case using reachable.here [of g u] here by (rule reachable.step)
next
  case (step x y)
  then show ?case by (meson reachable.step)
qed

lemma path_reachable: "path_cost g c p = Some t \<Longrightarrow> reachable g (hd p) (last p)"
proof (induction g c p arbitrary: t rule: path_cost.induct)
  case (1 g c)
  then show ?case by simp
next
  case (2 g c u)
  show ?case by (simp add: reachable.here)
next
  case (3 g c u v rest)
  from "3.prems" obtain e t' where e: "edge_of g u v = Some e"
    and t': "path_cost g c (v # rest) = Some t'" by (auto split: option.splits)
  from "3.IH" [OF e t'] have "reachable g v (last (v # rest))" by simp
  then have "reachable g u (last (v # rest))" using e reachable_cons by fastforce
  then show ?case by simp
qed

lemma finite_if_reachable:
  assumes I: "inv g c s D P Q V" and F: "final brk b Q" and r: "reachable g s b"
  shows "\<exists>d. D b = Some (Fin d)"
proof -
  have Q1: "\<And>d' n. (d', n) \<in> set Q \<Longrightarrow> map_of g n \<noteq> None \<and>
        (n \<notin> V \<longrightarrow> (\<exists>dn. D n = Some (Fin dn) \<and> dn \<le> d'))"
    and Q2: "\<And>n dn. n \<notin> V \<Longrightarrow> D n = Some (Fin dn) \<Longrightarrow> (dn, n) \<in> set Q"
    using I unfolding inv_def frontier_ok_def by blast+
  have T4: "\<And>v. v \<in> V \<Longrightarrow> \<exists>dv. D v = Some (Fin dv)"
    and T5: "\<And>w v. w \<in> V \<Longrightarrow> edge_of g w v \<noteq> None \<Longrightarrow> \<exists>dv. D v = Some (Fin dv)"
    using I unfolding inv_def tree_ok_def by blast+
  have S: "s \<in> V \<or> (V = {} \<and> set Q = {(0, s)})"
    using I unfolding inv_def source_ok_def by blast
  show ?thesis
  proof (cases Q)
    case Nil
    then have sV: "s \<in> V" using S by auto
    have "b \<in> V" using r
    proof (induction rule: reachable.induct)
      case here
      show ?case by (rule sV)
    next
      case (step u v)
      from T5 [OF step.IH step.hyps(2)] obtain dv where "D v = Some (Fin dv)" by blast
      then show ?case using Q2 [of v dv] Nil by auto
    qed
    then show ?thesis by (rule T4)
  next
    case (Cons x xs)
    then have b: "snd (heap_least x xs) = b" using F by (simp add: final_def)
    have "heap_least x xs \<in> set Q" using heap_least_in [of x xs] Cons by simp
    then have "(fst (heap_least x xs), b) \<in> set Q" using b by (metis prod.collapse)
    from Q1 [OF this] T4 [of b] show ?thesis by blast
  qed
qed

text \<open>
  \<open>dijkstra\<close> on a well-formed graph and two of its vertices returns; it never
  raises. An infinite cost comes with the path \<open>[b]\<close> and means that \<open>b\<close> is not
  reachable; a finite cost comes with a path from \<open>a\<close> to \<open>b\<close> of that cost.
\<close>

lemma dijkstra_sound:
  assumes wf: "wf_graph g" and a: "map_of g a \<noteq> None" and b: "map_of g b \<noteq> None"
  shows "\<exists>t path. dijkstra_with brk g a b c = Some (Inr (t, path)) \<and>
           (case t of
              Infinity \<Rightarrow> path = [b] \<and> \<not> reachable g a b
            | Fin d \<Rightarrow> path_cost g c path = Some d \<and> hd path = a \<and> last path = b)"
proof -
  let ?D0 = "(map_of (map (\<lambda>(k, v). (k, Infinity)) g))(a \<mapsto> Fin 0)"
  let ?P0 = "map_of (map (\<lambda>(k, v). (k, None :: int option)) g)"
  from loop_inv [OF wf inv_init [OF a], where brk = brk and b = b and c = c] obtain D P Q V where
    l: "dijkstra_loop brk g c b ?D0 ?P0 [(0, a)] {} = Inr (D, P)"
    and I: "inv g c a D P Q V" and F: "final brk b Q" by blast
  from chain_exists [OF I b] obtain xs t where xs: "chain P b xs" "D b = Some t"
    and t: "case t of
              Infinity \<Rightarrow> xs = [b] \<and> b \<noteq> a
            | Fin d \<Rightarrow> path_cost g c (rev xs) = Some d \<and> last xs = a" by blast
  have rec: "reconstruct P (Some b) [] = Some (Inr xs)"
    using chain_reconstruct [OF xs(1), of "[]"] by simp
  have res: "dijkstra_with brk g a b c = Some (Inr (t, rev xs))"
    using a b l rec xs(2) by (simp add: dijkstra_with_def)
  have ne: "xs \<noteq> []" and hd: "hd xs = b" using chain_hd [OF xs(1)] by simp_all
  show ?thesis
  proof (cases t)
    case (Fin d)
    then have "path_cost g c (rev xs) = Some d" "last xs = a" using t by simp_all
    moreover have "hd (rev xs) = last xs" using ne by (simp add: hd_rev)
    moreover have "last (rev xs) = hd xs" using ne by (simp add: last_rev)
    ultimately show ?thesis using res Fin hd by auto
  next
    case Infinity
    then have x: "xs = [b]" using t by simp
    have "\<not> reachable g a b" using finite_if_reachable [OF I F] xs(2) Infinity by auto
    then show ?thesis using res Infinity x by auto
  qed
qed

section \<open>Unreachable targets\<close>

lemma split_map_value:
  "split_map = [(0, \<lparr>vid = 0, vx = 0, vy = 0, edges = []\<rparr>),
                (1, \<lparr>vid = 1, vx = 1, vy = 0, edges = []\<rparr>)]"
  by code_simp

lemma split_map_no_edge: "edge_of split_map u v = None"
  by (simp add: edge_of_def split_map_value)

lemma split_map_unreachable: "\<not> reachable split_map 0 1"
proof
  assume "reachable split_map 0 1"
  then show False
    by (cases rule: reachable.cases) (simp_all add: split_map_no_edge)
qed

lemma split_map_wf: "wf_graph split_map"
  by (simp add: wf_graph_def split_map_value)

text \<open>
  C1 (as the code has it): on a well-formed graph, for vertices \<open>a\<close> and \<open>b\<close> of the
  graph with \<open>b\<close> not reachable from \<open>a\<close>, \<open>dijkstra\<close> returns, without raising,
  infinite cost and the one-element path \<open>[b]\<close>. The path is the one the query from
  \<open>b\<close> to \<open>b\<close> returns; the two results differ in their cost only.
\<close>

theorem dijkstra_unreachable:
  assumes "wf_graph g" and "map_of g a \<noteq> None" and "map_of g b \<noteq> None"
    and "\<not> reachable g a b"
  shows "dijkstra g a b c = Some (Inr (Infinity, [b])) \<and>
         dijkstra g b b c = Some (Inr (Fin 0, [b]))"
proof -
  from dijkstra_sound [OF assms(1-3), of True c] obtain t path where
    r: "dijkstra g a b c = Some (Inr (t, path))"
    and t: "case t of
              Infinity \<Rightarrow> path = [b] \<and> \<not> reachable g a b
            | Fin d \<Rightarrow> path_cost g c path = Some d \<and> hd path = a \<and> last path = b"
    unfolding dijkstra_def by blast
  have "t = Infinity"
  proof (cases t)
    case (Fin d)
    then have "reachable g (hd path) (last path)" "hd path = a" "last path = b"
      using t path_reachable [of g c path d] by simp_all
    then show ?thesis using assms(4) by simp
  qed simp
  then show ?thesis using r t same_vertex_result [OF assms(3)] by simp
qed

theorem dijkstra_unreachable_witness:
  "wf_graph split_map \<and> map_of split_map 0 \<noteq> None \<and> map_of split_map 1 \<noteq> None \<and>
   \<not> reachable split_map 0 1 \<and>
   dijkstra split_map 0 1 ''light'' = Some (Inr (Infinity, [1])) \<and>
   dijkstra split_map 1 1 ''light'' = Some (Inr (Fin 0, [1]))"
proof -
  have h0: "map_of split_map 0 \<noteq> None" and h1: "map_of split_map 1 \<noteq> None"
    by (simp_all add: split_map_value)
  show ?thesis
    using dijkstra_unreachable [OF split_map_wf h0 h1 split_map_unreachable, of "''light''"]
      split_map_wf h0 h1 split_map_unreachable
    by simp
qed

text \<open>
  C1 fails as stated: vertex 1 is not reachable from vertex 0 in the map without
  connections, and the path returned is \<open>[1]\<close>, not the empty path.
\<close>

theorem dijkstra_unreachable_counterexample:
  "\<not> reachable split_map 0 1 \<and>
   dijkstra split_map 0 1 ''normal'' = Some (Inr (Infinity, [1])) \<and>
   snd (projr (the (dijkstra split_map 0 1 ''normal''))) \<noteq> []"
proof -
  have "dijkstra split_map 0 1 ''normal'' = Some (Inr (Infinity, [1]))"
    by code_simp
  then show ?thesis using split_map_unreachable by simp
qed

section \<open>Early exit\<close>

text \<open>
  The loop with the early exit and the loop without it take the same steps until
  the target is popped.
\<close>

lemma early_run:
  assumes wf: "wf_graph g" and I: "inv g c s D P Q V"
  shows "\<exists>D1 P1 Q1 V1. dijkstra_loop True g c b D P Q V = Inr (D1, P1) \<and>
           inv g c s D1 P1 Q1 V1 \<and>
           dijkstra_loop False g c b D1 P1 Q1 V1 = dijkstra_loop False g c b D P Q V \<and>
           final True b Q1"
proof -
  define R0 where "R0 = dijkstra_loop False g c b D P Q V"
  define J where "J = (\<lambda>D P Q V. inv g c s D P Q V \<and> dijkstra_loop False g c b D P Q V = R0)"
  have J0: "J D P Q V" using I by (simp add: J_def R0_def)
  have "\<exists>D' P' Q' V'. dijkstra_loop True g c b D P Q V = Inr (D', P') \<and>
           J D' P' Q' V' \<and> V \<subseteq> V' \<and> final True b Q'"
  proof (rule loop_rule [where I = J, OF J0])
    fix D P Q V x xs
    assume j: "J D P Q V" and Q: "Q = x # xs" and v: "snd (heap_least x xs) \<in> V"
    have "inv g c s D P (remove1 (heap_least x xs) Q) V"
      using inv_skip [OF _ Q v] j by (simp add: J_def)
    moreover have "dijkstra_loop False g c b D P Q V
        = dijkstra_loop False g c b D P (remove1 (heap_least x xs) Q) V"
      using loop_skip [of False x xs b V g c D P] v Q by simp
    ultimately show "J D P (remove1 (heap_least x xs) Q) V" using j by (simp add: J_def)
  next
    fix D P Q V x xs
    assume j: "J D P Q V" and Q: "Q = x # xs" and v: "snd (heap_least x xs) \<notin> V"
    have i: "inv g c s D P Q V" using j by (simp add: J_def)
    from inv_visit [OF wf i Q v] obtain w D' P' Q' where
      w: "map_of g (snd (heap_least x xs)) = Some w"
      and r: "relax c (insert (snd (heap_least x xs)) V) (snd (heap_least x xs))
             (fst (heap_least x xs)) (edges w) (D, P, remove1 (heap_least x xs) Q)
             = Inr (D', P', Q')"
      and i': "inv g c s D' P' Q' (insert (snd (heap_least x xs)) V)" by blast
    have "dijkstra_loop False g c b D P Q V
        = dijkstra_loop False g c b D' P' Q' (insert (snd (heap_least x xs)) V)"
      using loop_visit [of False x xs b V g w c D P D' P' Q'] v w r Q by simp
    then have "J D' P' Q' (insert (snd (heap_least x xs)) V)" using j i' by (simp add: J_def)
    then show "\<exists>v D' P' Q'. map_of g (snd (heap_least x xs)) = Some v \<and>
           relax c (insert (snd (heap_least x xs)) V) (snd (heap_least x xs))
             (fst (heap_least x xs)) (edges v) (D, P, remove1 (heap_least x xs) Q)
             = Inr (D', P', Q') \<and>
           J D' P' Q' (insert (snd (heap_least x xs)) V)"
      using w r by blast
  qed
  then show ?thesis unfolding J_def R0_def by blast
qed

text \<open>
  Once the target is the least entry, running on changes no entry of a visited
  vertex or of the target.
\<close>

lemma late_run:
  assumes wf: "wf_graph g" and I: "inv g c s D1 P1 Q1 V1"
    and Q1: "Q1 = x # xs" and b: "snd (heap_least x xs) = b"
  shows "\<exists>D2 P2. dijkstra_loop False g c b D1 P1 Q1 V1 = Inr (D2, P2) \<and>
           (\<forall>n \<in> insert b V1. D2 n = D1 n \<and> P2 n = P1 n)"
proof -
  define J where "J = (\<lambda>D P Q V. inv g c s D P Q V \<and>
     ((V = V1 \<and> D = D1 \<and> P = P1 \<and> Q = Q1) \<or>
      (insert b V1 \<subseteq> V \<and> (\<forall>n \<in> insert b V1. D n = D1 n \<and> P n = P1 n))))"
  have J0: "J D1 P1 Q1 V1" using I by (simp add: J_def)
  have "\<exists>D' P' Q' V'. dijkstra_loop False g c b D1 P1 Q1 V1 = Inr (D', P') \<and>
           J D' P' Q' V' \<and> V1 \<subseteq> V' \<and> final False b Q'"
  proof (rule loop_rule [where I = J, OF J0])
    fix D P Q V y ys
    assume j: "J D P Q V" and Q: "Q = y # ys" and v: "snd (heap_least y ys) \<in> V"
    have i: "inv g c s D P (remove1 (heap_least y ys) Q) V"
      using inv_skip [OF _ Q v] j by (simp add: J_def)
    have "insert b V1 \<subseteq> V \<and> (\<forall>n \<in> insert b V1. D n = D1 n \<and> P n = P1 n)"
      using j unfolding J_def
    proof (elim conjE disjE)
      assume "V = V1" "D = D1" "P = P1" "Q = Q1"
      then have "y = x" "ys = xs" using Q Q1 by simp_all
      then show ?thesis using v b \<open>V = V1\<close> \<open>D = D1\<close> \<open>P = P1\<close> by auto
    qed simp
    then show "J D P (remove1 (heap_least y ys) Q) V" using i by (simp add: J_def)
  next
    fix D P Q V y ys
    assume j: "J D P Q V" and Q: "Q = y # ys" and v: "snd (heap_least y ys) \<notin> V"
    have i: "inv g c s D P Q V" using j by (simp add: J_def)
    from inv_visit [OF wf i Q v] obtain w D' P' Q' where
      w: "map_of g (snd (heap_least y ys)) = Some w"
      and r: "relax c (insert (snd (heap_least y ys)) V) (snd (heap_least y ys))
             (fst (heap_least y ys)) (edges w) (D, P, remove1 (heap_least y ys) Q)
             = Inr (D', P', Q')"
      and R: "relaxed g c (snd (heap_least y ys)) (fst (heap_least y ys))
              (insert (snd (heap_least y ys)) V) D P (remove1 (heap_least y ys) Q) D' P' Q'"
      and i': "inv g c s D' P' Q' (insert (snd (heap_least y ys)) V)" by blast
    have keep: "\<And>n. n \<in> insert (snd (heap_least y ys)) V \<Longrightarrow> D' n = D n \<and> P' n = P n"
      using relaxedD(2) [OF R] .
    have "insert b V1 \<subseteq> insert (snd (heap_least y ys)) V \<and>
          (\<forall>n \<in> insert b V1. D' n = D1 n \<and> P' n = P1 n)"
      using j unfolding J_def
    proof (elim conjE disjE)
      assume e: "V = V1" "D = D1" "P = P1" "Q = Q1"
      then have "y = x" "ys = xs" using Q Q1 by simp_all
      then have "snd (heap_least y ys) = b" using b by simp
      then show ?thesis using keep e by auto
    next
      assume "insert b V1 \<subseteq> V" "\<forall>n \<in> insert b V1. D n = D1 n \<and> P n = P1 n"
      then show ?thesis using keep by (metis insertCI subset_iff)
    qed
    then have "J D' P' Q' (insert (snd (heap_least y ys)) V)" using i' by (simp add: J_def)
    then show "\<exists>v D' P' Q'. map_of g (snd (heap_least y ys)) = Some v \<and>
           relax c (insert (snd (heap_least y ys)) V) (snd (heap_least y ys))
             (fst (heap_least y ys)) (edges v) (D, P, remove1 (heap_least y ys) Q)
             = Inr (D', P', Q') \<and>
           J D' P' Q' (insert (snd (heap_least y ys)) V)"
      using w r by blast
  qed
  then obtain D2 P2 Q2 V2 where l: "dijkstra_loop False g c b D1 P1 Q1 V1 = Inr (D2, P2)"
    and j: "J D2 P2 Q2 V2" and f: "final False b Q2" by blast
  have "Q2 = []" using f by (cases Q2) (simp_all add: final_def)
  then have "Q2 \<noteq> Q1" using Q1 by simp
  then have "\<forall>n \<in> insert b V1. D2 n = D1 n \<and> P2 n = P1 n" using j unfolding J_def by blast
  then show ?thesis using l by blast
qed

lemma early_exit_same:
  assumes wf: "wf_graph g"
  shows "dijkstra_with True g a b c = dijkstra_with False g a b c"
proof (cases "map_of g a = None \<or> map_of g b = None")
  case True
  then show ?thesis by (simp add: dijkstra_with_def)
next
  case False
  then have a: "map_of g a \<noteq> None" and b: "map_of g b \<noteq> None" by simp_all
  let ?D0 = "(map_of (map (\<lambda>(k, v). (k, Infinity)) g))(a \<mapsto> Fin 0)"
  let ?P0 = "map_of (map (\<lambda>(k, v). (k, None :: int option)) g)"
  from early_run [OF wf inv_init [OF a], where b = b and c = c] obtain D1 P1 Q1 V1 where
    l1: "dijkstra_loop True g c b ?D0 ?P0 [(0, a)] {} = Inr (D1, P1)"
    and I1: "inv g c a D1 P1 Q1 V1"
    and eq: "dijkstra_loop False g c b D1 P1 Q1 V1 = dijkstra_loop False g c b ?D0 ?P0 [(0, a)] {}"
    and f: "final True b Q1" by blast
  from chain_exists [OF I1 b] obtain xs t where xs: "chain P1 b xs" "set xs \<subseteq> insert b V1"
    "D1 b = Some t" by blast
  have rec1: "reconstruct P1 (Some b) [] = Some (Inr xs)"
    using chain_reconstruct [OF xs(1), of "[]"] by simp
  have res1: "dijkstra_with True g a b c = Some (Inr (t, rev xs))"
    using a b l1 rec1 xs(3) by (simp add: dijkstra_with_def)
  have "\<exists>D2 P2. dijkstra_loop False g c b ?D0 ?P0 [(0, a)] {} = Inr (D2, P2) \<and>
          (\<forall>n \<in> insert b V1. D2 n = D1 n \<and> P2 n = P1 n)"
  proof (cases Q1)
    case Nil
    then have "dijkstra_loop False g c b ?D0 ?P0 [(0, a)] {} = Inr (D1, P1)"
      using eq loop_nil [of False g c b D1 P1 V1] by simp
    then show ?thesis by blast
  next
    case (Cons x ys)
    then have "snd (heap_least x ys) = b" using f by (simp add: final_def)
    from late_run [OF wf I1 Cons this] show ?thesis using eq by simp
  qed
  then obtain D2 P2 where l2: "dijkstra_loop False g c b ?D0 ?P0 [(0, a)] {} = Inr (D2, P2)"
    and same: "\<forall>n \<in> insert b V1. D2 n = D1 n \<and> P2 n = P1 n" by blast
  have "\<forall>w \<in> set xs. P2 w = P1 w" using same xs(2) by blast
  then have "chain P2 b xs" using chain_cong [OF xs(1)] by blast
  then have rec2: "reconstruct P2 (Some b) [] = Some (Inr xs)"
    using chain_reconstruct [of P2 b xs "[]"] by simp
  have "D2 b = Some t" using same xs(3) by simp
  then have "dijkstra_with False g a b c = Some (Inr (t, rev xs))"
    using a b l2 rec2 by (simp add: dijkstra_with_def)
  then show ?thesis using res1 by simp
qed

text \<open>
  C9: on a well-formed graph, for any two ids and any condition, \<open>dijkstra\<close> (which
  leaves the loop as soon as the target is popped) returns exactly what the variant
  that runs until the frontier is empty returns, and it does return.
\<close>

theorem early_exit_is_optimization:
  assumes "wf_graph g"
  shows "dijkstra g a b c = dijkstra_with False g a b c \<and> dijkstra g a b c \<noteq> None"
proof -
  have "dijkstra g a b c \<noteq> None"
  proof (cases "map_of g a = None \<or> map_of g b = None")
    case True
    then show ?thesis by (simp add: dijkstra_def dijkstra_with_def)
  next
    case False
    then show ?thesis
      using dijkstra_sound [OF assms, of a b True c] by (auto simp: dijkstra_def)
  qed
  then show ?thesis using early_exit_same [OF assms, of a b c] by (simp add: dijkstra_def)
qed

lemma line_map_wf: "wf_graph line_map"
  by code_simp

theorem early_exit_is_optimization_witness:
  "wf_graph line_map \<and>
   dijkstra line_map 0 2 ''normal'' = dijkstra_with False line_map 0 2 ''normal'' \<and>
   dijkstra line_map 0 2 ''normal'' \<noteq> None \<and>
   dijkstra_with False line_map 0 2 ''normal'' = Some (Inr (Fin 10, [0, 1, 2]))"
proof -
  have "dijkstra_with False line_map 0 2 ''normal'' = Some (Inr (Fin 10, [0, 1, 2]))"
    by code_simp
  then show ?thesis
    using line_map_wf early_exit_is_optimization [OF line_map_wf, of 0 2 "''normal''"] by simp
qed

section \<open>Nearest cop\<close>

lemma ecost_less_trans: "ecost_less a b \<Longrightarrow> ecost_less b c \<Longrightarrow> ecost_less a c"
  by (cases a; cases b; cases c) auto

lemma ecost_less_le_trans: "ecost_less a b \<Longrightarrow> \<not> ecost_less c b \<Longrightarrow> ecost_less a c"
  by (cases a; cases b; cases c) auto

lemma ecost_not_less_Infinity: "\<not> ecost_less t Infinity \<Longrightarrow> t = Infinity"
  by (cases t) auto

lemma ecost_less_Infinity: "ecost_less t Infinity \<Longrightarrow> \<exists>d. t = Fin d"
  by (cases t) auto

text \<open>The cop loop keeps the first entry of least cost that beats the starting value.\<close>

lemma nearest_loop_spec:
  assumes wf: "wf_graph g" and t: "map_of g t \<noteq> None"
    and locs: "\<forall>(cop, loc) \<in> set cs. map_of g loc \<noteq> None"
  shows "(nearest_loop g t c cs (nc, st, bp) = Some (Inr (nc, st, bp)) \<and>
          (\<forall>(cj, lj) \<in> set cs. \<exists>tj pj. dijkstra g lj t c = Some (Inr (tj, pj)) \<and>
             \<not> ecost_less tj st)) \<or>
         (\<exists>pre cop loc post st' p. cs = pre @ (cop, loc) # post \<and>
            nearest_loop g t c cs (nc, st, bp) = Some (Inr (Some cop, st', Some p)) \<and>
            dijkstra g loc t c = Some (Inr (st', p)) \<and> ecost_less st' st \<and>
            (\<forall>(cj, lj) \<in> set pre. \<exists>tj pj. dijkstra g lj t c = Some (Inr (tj, pj)) \<and>
               ecost_less st' tj) \<and>
            (\<forall>(cj, lj) \<in> set post. \<exists>tj pj. dijkstra g lj t c = Some (Inr (tj, pj)) \<and>
               \<not> ecost_less tj st'))"
  using locs
proof (induction cs arbitrary: nc st bp)
  case Nil
  then show ?case by simp
next
  case (Cons x cs)
  obtain cop loc where x: "x = (cop, loc)" by (cases x)
  have loc: "map_of g loc \<noteq> None" and rest: "\<forall>(cop, loc) \<in> set cs. map_of g loc \<noteq> None"
    using Cons.prems x by auto
  from dijkstra_sound [OF wf loc t, of True c] obtain tm p where
    d: "dijkstra g loc t c = Some (Inr (tm, p))" unfolding dijkstra_def by blast
  show ?case
  proof (cases "ecost_less tm st")
    case True
    have step: "nearest_loop g t c (x # cs) (nc, st, bp)
                  = nearest_loop g t c cs (Some cop, tm, Some p)"
      using x d True by simp
    from Cons.IH [OF rest, of "Some cop" tm "Some p"] show ?thesis
    proof (elim disjE conjE exE)
      assume r: "nearest_loop g t c cs (Some cop, tm, Some p) = Some (Inr (Some cop, tm, Some p))"
        and o: "\<forall>(cj, lj) \<in> set cs. \<exists>tj pj. dijkstra g lj t c = Some (Inr (tj, pj)) \<and>
             \<not> ecost_less tj tm"
      show ?thesis
        by (rule disjI2, rule exI [of _ "[]"], rule exI [of _ cop], rule exI [of _ loc],
            rule exI [of _ cs], rule exI [of _ tm], rule exI [of _ p])
           (use x r d True o in simp)
    next
      fix pre cop' loc' post st' p'
      assume cs: "cs = pre @ (cop', loc') # post"
        and r: "nearest_loop g t c cs (Some cop, tm, Some p) = Some (Inr (Some cop', st', Some p'))"
        and d': "dijkstra g loc' t c = Some (Inr (st', p'))"
        and less: "ecost_less st' tm"
        and before: "\<forall>(cj, lj) \<in> set pre. \<exists>tj pj. dijkstra g lj t c = Some (Inr (tj, pj)) \<and>
               ecost_less st' tj"
        and after: "\<forall>(cj, lj) \<in> set post. \<exists>tj pj. dijkstra g lj t c = Some (Inr (tj, pj)) \<and>
               \<not> ecost_less tj st'"
      have a: "x # cs = (x # pre) @ (cop', loc') # post" using cs by simp
      have b: "ecost_less st' st" using less True by (rule ecost_less_trans)
      have c: "\<forall>(cj, lj) \<in> set (x # pre). \<exists>tj pj. dijkstra g lj t c = Some (Inr (tj, pj)) \<and>
               ecost_less st' tj"
        using before x d less by auto
      show ?thesis
        by (rule disjI2, rule exI [of _ "x # pre"], rule exI [of _ cop'], rule exI [of _ loc'],
            rule exI [of _ post], rule exI [of _ st'], rule exI [of _ p'])
           (use a step r d' b c after in simp)
    qed
  next
    case False
    have step: "nearest_loop g t c (x # cs) (nc, st, bp) = nearest_loop g t c cs (nc, st, bp)"
      using x d False by simp
    from Cons.IH [OF rest, of nc st bp] show ?thesis
    proof (elim disjE conjE exE)
      assume r: "nearest_loop g t c cs (nc, st, bp) = Some (Inr (nc, st, bp))"
        and o: "\<forall>(cj, lj) \<in> set cs. \<exists>tj pj. dijkstra g lj t c = Some (Inr (tj, pj)) \<and>
             \<not> ecost_less tj st"
      have "\<forall>(cj, lj) \<in> set (x # cs). \<exists>tj pj. dijkstra g lj t c = Some (Inr (tj, pj)) \<and>
             \<not> ecost_less tj st"
        using o x d False by auto
      then show ?thesis using step r by simp
    next
      fix pre cop' loc' post st' p'
      assume cs: "cs = pre @ (cop', loc') # post"
        and r: "nearest_loop g t c cs (nc, st, bp) = Some (Inr (Some cop', st', Some p'))"
        and d': "dijkstra g loc' t c = Some (Inr (st', p'))"
        and less: "ecost_less st' st"
        and before: "\<forall>(cj, lj) \<in> set pre. \<exists>tj pj. dijkstra g lj t c = Some (Inr (tj, pj)) \<and>
               ecost_less st' tj"
        and after: "\<forall>(cj, lj) \<in> set post. \<exists>tj pj. dijkstra g lj t c = Some (Inr (tj, pj)) \<and>
               \<not> ecost_less tj st'"
      have a: "x # cs = (x # pre) @ (cop', loc') # post" using cs by simp
      have "ecost_less st' tm" using less False by (rule ecost_less_le_trans)
      then have c: "\<forall>(cj, lj) \<in> set (x # pre). \<exists>tj pj.
               dijkstra g lj t c = Some (Inr (tj, pj)) \<and> ecost_less st' tj"
        using before x d by auto
      show ?thesis
        by (rule disjI2, rule exI [of _ "x # pre"], rule exI [of _ cop'], rule exI [of _ loc'],
            rule exI [of _ post], rule exI [of _ st'], rule exI [of _ p'])
           (use a step r d' less c after in simp)
    qed
  qed
qed

lemma dispatch_locs:
  "wf_dispatch s \<Longrightarrow> \<forall>(cop, loc) \<in> set (cops s). map_of (graph s) loc \<noteq> None"
  by (simp add: wf_dispatch_def)

lemma dijkstra_finite:
  assumes wf: "wf_graph g" and a: "map_of g a \<noteq> None" and b: "map_of g b \<noteq> None"
    and d: "dijkstra g a b c = Some (Inr (Fin d, p))"
  shows "path_cost g c p = Some d \<and> hd p = a \<and> last p = b \<and> reachable g a b"
proof -
  from dijkstra_sound [OF wf a b, of True c] d
  have pc: "path_cost g c p = Some d \<and> hd p = a \<and> last p = b"
    by (auto simp: dijkstra_def)
  then show ?thesis using path_reachable [of g c p d] by auto
qed

lemma dijkstra_infinite:
  assumes wf: "wf_graph g" and a: "map_of g a \<noteq> None" and b: "map_of g b \<noteq> None"
    and d: "dijkstra g a b c = Some (Inr (Infinity, p))"
  shows "\<not> reachable g a b"
  using dijkstra_sound [OF wf a b, of True c] d by (auto simp: dijkstra_def)

text \<open>
  C7 (as the code has it): for a directory in which at least one cop can reach the
  target, \<open>find_nearest_cop\<close> returns a cop whose \<open>dijkstra\<close> cost to the target is
  finite and least among all cops; every cop assigned before it costs strictly more
  (the first minimum in assignment order wins) and no cop assigned after it costs
  less. The returned path is the one \<open>dijkstra\<close> found for that cop, it leads from the
  cop's location to the target, and its edge costs under the query condition sum to
  the returned cost.
\<close>

theorem nearest_cop_first_minimum:
  assumes wf: "wf_dispatch s" and t: "map_of (graph s) t \<noteq> None"
    and re: "\<exists>(cop, loc) \<in> set (cops s). reachable (graph s) loc t"
  shows "\<exists>pre cop loc post d path. cops s = pre @ (cop, loc) # post \<and>
           find_nearest_cop s t c = Some (Inr (Some cop, Some (Fin d), Some path)) \<and>
           dijkstra (graph s) loc t c = Some (Inr (Fin d, path)) \<and>
           path_cost (graph s) c path = Some d \<and> hd path = loc \<and> last path = t \<and>
           (\<forall>(cj, lj) \<in> set pre. \<exists>tj pj. dijkstra (graph s) lj t c = Some (Inr (tj, pj)) \<and>
              ecost_less (Fin d) tj) \<and>
           (\<forall>(cj, lj) \<in> set post. \<exists>tj pj. dijkstra (graph s) lj t c = Some (Inr (tj, pj)) \<and>
              \<not> ecost_less tj (Fin d))"
proof -
  let ?g = "graph s"
  have wfg: "wf_graph ?g" using wf by (simp add: wf_dispatch_def)
  note locs = dispatch_locs [OF wf]
  from re obtain cop0 loc0 where c0: "(cop0, loc0) \<in> set (cops s)" "reachable ?g loc0 t"
    by auto
  have ne: "cops s \<noteq> []" using c0(1) by auto
  from nearest_loop_spec [OF wfg t locs, of c None Infinity None] show ?thesis
  proof (elim disjE conjE exE)
    assume o: "\<forall>(cj, lj) \<in> set (cops s). \<exists>tj pj. dijkstra ?g lj t c = Some (Inr (tj, pj)) \<and>
             \<not> ecost_less tj Infinity"
    then obtain tj pj where "dijkstra ?g loc0 t c = Some (Inr (tj, pj))" "\<not> ecost_less tj Infinity"
      using c0(1) by fastforce
    then have "dijkstra ?g loc0 t c = Some (Inr (Infinity, pj))"
      using ecost_not_less_Infinity by simp
    moreover have "map_of ?g loc0 \<noteq> None" using locs c0(1) by auto
    ultimately have "\<not> reachable ?g loc0 t" using dijkstra_infinite [OF wfg _ t] by blast
    then show ?thesis using c0(2) by simp
  next
    fix pre cop loc post st' p
    assume cs: "cops s = pre @ (cop, loc) # post"
      and r: "nearest_loop ?g t c (cops s) (None, Infinity, None) = Some (Inr (Some cop, st', Some p))"
      and d: "dijkstra ?g loc t c = Some (Inr (st', p))"
      and less: "ecost_less st' Infinity"
      and before: "\<forall>(cj, lj) \<in> set pre. \<exists>tj pj. dijkstra ?g lj t c = Some (Inr (tj, pj)) \<and>
               ecost_less st' tj"
      and after: "\<forall>(cj, lj) \<in> set post. \<exists>tj pj. dijkstra ?g lj t c = Some (Inr (tj, pj)) \<and>
               \<not> ecost_less tj st'"
    from ecost_less_Infinity [OF less] obtain dd where st': "st' = Fin dd" by blast
    have "map_of ?g loc \<noteq> None" using locs cs by auto
    from dijkstra_finite [OF wfg this t] d st'
    have pc: "path_cost ?g c p = Some dd \<and> hd p = loc \<and> last p = t" by simp
    have f: "find_nearest_cop s t c = Some (Inr (Some cop, Some (Fin dd), Some p))"
      using ne r st' by (simp add: find_nearest_cop_def)
    show ?thesis
      by (rule exI [of _ pre], rule exI [of _ cop], rule exI [of _ loc],
          rule exI [of _ post], rule exI [of _ dd], rule exI [of _ p])
         (use cs f d st' pc before after in simp)
  qed
qed


lemma line_dispatch_wf: "wf_dispatch line_dispatch"
proof -
  have "map_of line_map 0 \<noteq> None" "map_of line_map 1 \<noteq> None" by code_simp+
  then show ?thesis using line_map_wf by (simp add: wf_dispatch_def line_dispatch_def)
qed


lemma line_map_reach: "reachable line_map 1 2"
proof -
  have "edge_of line_map 1 2 \<noteq> None" by code_simp
  then show ?thesis using reachable.step [OF reachable.here] by blast
qed

theorem nearest_cop_first_minimum_witness:
  "wf_dispatch line_dispatch \<and> map_of (graph line_dispatch) 2 \<noteq> None \<and>
   reachable (graph line_dispatch) 1 2 \<and>
   find_nearest_cop line_dispatch 2 ''normal'' = Some (Inr (Some ''R2'', Some (Fin 5), Some [1, 2])) \<and>
   path_cost (graph line_dispatch) ''normal'' [1, 2] = Some 5"
proof -
  have t: "map_of (graph line_dispatch) 2 \<noteq> None" by code_simp
  have r: "reachable (graph line_dispatch) 1 2" using line_map_reach by (simp add: line_dispatch_def)
  have re: "\<exists>(cop, loc) \<in> set (cops line_dispatch). reachable (graph line_dispatch) loc 2"
    using r by (simp add: line_dispatch_def)
  have ev: "find_nearest_cop line_dispatch 2 ''normal''
              = Some (Inr (Some ''R2'', Some (Fin 5), Some [1, 2]))"
    by code_simp
  from nearest_cop_first_minimum [OF line_dispatch_wf t re, of "''normal''"] ev
  have "path_cost (graph line_dispatch) ''normal'' [1, 2] = Some 5" by auto
  then show ?thesis using line_dispatch_wf t r ev by simp
qed

text \<open>
  C7 fails as stated: with a directory that is not empty and an existing target, no
  resource is returned when no cop can reach the target.
\<close>

theorem nearest_cop_counterexample:
  "cops split_dispatch \<noteq> [] \<and> map_of (graph split_dispatch) 1 \<noteq> None \<and>
   find_nearest_cop split_dispatch 1 ''normal'' = Some (Inr (None, Some Infinity, None))"
  by code_simp


section \<open>Optimality for non-negative costs\<close>

lemma settledD:
  assumes "settled_ok g c s D Q V"
  shows "\<And>v p t dv. v \<in> V \<Longrightarrow> path_cost g c p = Some t \<Longrightarrow> hd p = s \<Longrightarrow> last p = v \<Longrightarrow>
           D v = Some (Fin dv) \<Longrightarrow> dv \<le> t"
    and "\<And>u v e du. u \<in> V \<Longrightarrow> edge_of g u v = Some e \<Longrightarrow> D u = Some (Fin du) \<Longrightarrow>
           \<exists>dv. D v = Some (Fin dv) \<and> dv \<le> du + get_weight e c"
    and "\<And>v dv d u. v \<in> V \<Longrightarrow> D v = Some (Fin dv) \<Longrightarrow> (d, u) \<in> set Q \<Longrightarrow> dv \<le> d"
proof -
  show "\<And>v p t dv. v \<in> V \<Longrightarrow> path_cost g c p = Some t \<Longrightarrow> hd p = s \<Longrightarrow> last p = v \<Longrightarrow>
           D v = Some (Fin dv) \<Longrightarrow> dv \<le> t"
    using assms unfolding settled_ok_def by blast
  show "\<And>u v e du. u \<in> V \<Longrightarrow> edge_of g u v = Some e \<Longrightarrow> D u = Some (Fin du) \<Longrightarrow>
           \<exists>dv. D v = Some (Fin dv) \<and> dv \<le> du + get_weight e c"
    using assms unfolding settled_ok_def by blast
  show "\<And>v dv d u. v \<in> V \<Longrightarrow> D v = Some (Fin dv) \<Longrightarrow> (d, u) \<in> set Q \<Longrightarrow> dv \<le> d"
    using assms unfolding settled_ok_def by blast
qed

lemma inv_settled_finite:
  "inv g c s D P Q V \<Longrightarrow> v \<in> V \<Longrightarrow> \<exists>dv. D v = Some (Fin dv)"
  unfolding inv_def tree_ok_def by blast

text \<open>
  With non-negative costs, any path from the source to a vertex that is not yet
  visited costs at least as much as some entry of the frontier: follow the path to
  the first vertex outside the visited set.
\<close>

lemma first_exit:
  assumes I: "inv g c s D P Q V" and O: "settled_ok g c s D Q V" and nn: "nonneg g c"
  shows "path_cost g c p = Some t \<Longrightarrow> hd p = s \<Longrightarrow> last p \<notin> V \<Longrightarrow>
         \<exists>d' y. (d', y) \<in> set Q \<and> d' \<le> t"
proof (induction p arbitrary: t rule: rev_induct)
  case Nil
  then show ?case by simp
next
  case (snoc z ys)
  have zV: "z \<notin> V" using snoc.prems(3) by simp
  show ?case
  proof (cases "ys = []")
    case True
    then have "z = s" "t = 0" using snoc.prems by (auto split: if_splits)
    moreover have "s \<in> V \<or> (V = {} \<and> set Q = {(0, s)})"
      using I unfolding inv_def source_ok_def by blast
    ultimately show ?thesis using zV by auto
  next
    case False
    from path_cost_snocD [OF snoc.prems(1) False] obtain t' e where
      ys: "path_cost g c ys = Some t'" and e: "edge_of g (last ys) z = Some e"
      and t: "t = t' + get_weight e c" by blast
    have hd: "hd ys = s" using snoc.prems(2) False by simp
    have w0: "0 \<le> get_weight e c" using nn e unfolding nonneg_def by blast
    show ?thesis
    proof (cases "last ys \<in> V")
      case nin: False
      from snoc.IH [OF ys hd nin] obtain d' y where "(d', y) \<in> set Q" "d' \<le> t'" by blast
      then show ?thesis using t w0 by (intro exI [of _ d'] exI [of _ y]) simp
    next
      case True
      from inv_settled_finite [OF I True] obtain dx where dx: "D (last ys) = Some (Fin dx)"
        by blast
      have "dx \<le> t'" using settledD(1) [OF O True ys hd refl dx] .
      moreover from settledD(2) [OF O True e dx] obtain dz where
        dz: "D z = Some (Fin dz)" "dz \<le> dx + get_weight e c" by blast
      moreover have "(dz, z) \<in> set Q"
        using I zV dz(1) unfolding inv_def frontier_ok_def by blast
      ultimately show ?thesis using t by (intro exI [of _ dz] exI [of _ z]) simp
    qed
  qed
qed

lemma settled_skip:
  assumes "settled_ok g c s D Q V"
  shows "settled_ok g c s D (remove1 m Q) V"
proof -
  have "set (remove1 m Q) \<subseteq> set Q" by (rule set_remove1_subset)
  then show ?thesis using assms unfolding settled_ok_def by blast
qed

text \<open>
  A visit keeps the settled vertices optimal.
\<close>

lemma settled_step:
  assumes wf: "wf_graph g" and nn: "nonneg g c"
    and I: "inv g c s D P Q V" and O: "settled_ok g c s D Q V"
    and Q: "Q = x # xs" and nv: "snd (heap_least x xs) \<notin> V"
    and R: "relaxed g c (snd (heap_least x xs)) (fst (heap_least x xs))
              (insert (snd (heap_least x xs)) V) D P (remove1 (heap_least x xs) Q) D' P' Q'"
  shows "settled_ok g c s D' Q' (insert (snd (heap_least x xs)) V)"
proof -
  define u where "u = snd (heap_least x xs)"
  define d where "d = fst (heap_least x xs)"
  have R': "relaxed g c u d (insert u V) D P (remove1 (heap_least x xs) Q) D' P' Q'"
    using R by (simp add: u_def d_def)
  have uV: "u \<notin> V" using nv by (simp add: u_def)
  have fr: "frontier_ok g D Q V" using I unfolding inv_def by simp
  note pf = pop_facts [OF fr Q nv]
  have mQ: "(d, u) \<in> set Q" using pf(1) by (simp add: u_def d_def)
  have Du: "D u = Some (Fin d)" using pf(3) by (simp add: u_def d_def)
  have least: "\<And>d' n. (d', n) \<in> set Q \<Longrightarrow> d \<le> d'" using pf(4) by (auto simp: d_def)
  note R2 = relaxedD(2) [OF R'] and R3 = relaxedD(3) [OF R'] and R5 = relaxedD(5) [OF R']
    and R6 = relaxedD(6) [OF R']
  have below: "dv \<le> d" if "v \<in> insert u V" "D v = Some (Fin dv)" for v dv
  proof (cases "v \<in> V")
    case True
    then show ?thesis using settledD(3) [OF O True that(2) mQ] by simp
  next
    case False
    then show ?thesis using that Du by auto
  qed
  have a: "dv \<le> t" if v: "v \<in> insert u V" and p: "path_cost g c p = Some t" "hd p = s" "last p = v"
    and dv: "D' v = Some (Fin dv)" for v p t dv
  proof -
    have Dv: "D v = Some (Fin dv)" using R2 [OF v] dv by simp
    show ?thesis
    proof (cases "v \<in> V")
      case True
      then show ?thesis using settledD(1) [OF O True p Dv] by simp
    next
      case False
      then have vu: "v = u" using v by simp
      then have "last p \<notin> V" using uV p(3) by simp
      from first_exit [OF I O nn p(1) p(2) this] obtain d' y where
        "(d', y) \<in> set Q" "d' \<le> t" by blast
      then have "d \<le> t" using least [of d' y] by simp
      then show ?thesis using Dv Du vu by simp
    qed
  qed
  have b: "\<exists>dv. D' v = Some (Fin dv) \<and> dv \<le> dw + get_weight e c"
    if w: "w \<in> insert u V" and e: "edge_of g w v = Some e" and dw: "D' w = Some (Fin dw)"
    for w v e dw
  proof -
    have Dw: "D w = Some (Fin dw)" using R2 [OF w] dw by simp
    have w0: "0 \<le> get_weight e c" using nn e unfolding nonneg_def by blast
    show ?thesis
    proof (cases "w \<in> V")
      case True
      from settledD(2) [OF O True e Dw] obtain dv where
        "D v = Some (Fin dv)" "dv \<le> dw + get_weight e c" by blast
      then show ?thesis using R6 [of v dv] by fastforce
    next
      case False
      then have wu: "w = u" using w by simp
      then have dwd: "dw = d" using Dw Du by simp
      show ?thesis
      proof (cases "v \<in> insert u V")
        case True
        from inv_settled_finite [OF I] Du True obtain dv where Dv: "D v = Some (Fin dv)"
          by (cases "v = u") auto
        have "dv \<le> d" using below [OF True Dv] .
        then show ?thesis using R2 [OF True] Dv dwd w0 by simp
      next
        case False
        then show ?thesis using R3 [of v e] e wu dwd by simp
      qed
    qed
  qed
  have c: "dv \<le> d'" if v: "v \<in> insert u V" and dv: "D' v = Some (Fin dv)"
    and q: "(d', n) \<in> set Q'" for v dv d' n
  proof -
    have Dv: "D v = Some (Fin dv)" using R2 [OF v] dv by simp
    have le: "dv \<le> d" using below [OF v Dv] .
    from R5 [OF q] show ?thesis
    proof
      assume "(d', n) \<in> set (remove1 (heap_least x xs) Q)"
      then have "(d', n) \<in> set Q" using set_remove1_subset [of "heap_least x xs" Q] by blast
      then show ?thesis using least [of d' n] le by simp
    next
      assume "n \<notin> insert u V \<and> D' n = Some (Fin d') \<and>
         (\<exists>e. edge_of g u n = Some e \<and> d' = d + get_weight e c)"
      then obtain e where e: "edge_of g u n = Some e" "d' = d + get_weight e c" by blast
      have "0 \<le> get_weight e c" using nn e(1) unfolding nonneg_def by blast
      then show ?thesis using e(2) le by simp
    qed
  qed
  have A: "\<forall>v \<in> insert u V. \<forall>p t dv. path_cost g c p = Some t \<longrightarrow> hd p = s \<longrightarrow> last p = v \<longrightarrow>
        D' v = Some (Fin dv) \<longrightarrow> dv \<le> t"
    using a by (intro ballI allI impI)
  have B: "\<forall>w \<in> insert u V. \<forall>v e du. edge_of g w v = Some e \<longrightarrow> D' w = Some (Fin du) \<longrightarrow>
        (\<exists>dv. D' v = Some (Fin dv) \<and> dv \<le> du + get_weight e c)"
    using b by (intro ballI allI impI)
  have C: "\<forall>v \<in> insert u V. \<forall>dv. D' v = Some (Fin dv) \<longrightarrow> (\<forall>(d, n) \<in> set Q'. dv \<le> d)"
    using c by (intro ballI allI impI) auto
  have "settled_ok g c s D' Q' (insert u V)"
    unfolding settled_ok_def using A B C by (intro conjI)
  then show ?thesis by (simp add: u_def)
qed

lemma loop_settled:
  assumes wf: "wf_graph g" and nn: "nonneg g c"
    and I: "inv g c s D P Q V" and O: "settled_ok g c s D Q V"
  shows "\<exists>D' P' Q' V'. dijkstra_loop brk g c b D P Q V = Inr (D', P') \<and>
           (inv g c s D' P' Q' V' \<and> settled_ok g c s D' Q' V') \<and> V \<subseteq> V' \<and> final brk b Q'"
proof (rule loop_rule [where I = "\<lambda>D P Q V. inv g c s D P Q V \<and> settled_ok g c s D Q V"])
  show "inv g c s D P Q V \<and> settled_ok g c s D Q V" using I O by simp
next
  fix D P Q V x xs
  assume j: "inv g c s D P Q V \<and> settled_ok g c s D Q V" and Q: "Q = x # xs"
    and v: "snd (heap_least x xs) \<in> V"
  show "inv g c s D P (remove1 (heap_least x xs) Q) V \<and>
        settled_ok g c s D (remove1 (heap_least x xs) Q) V"
    using inv_skip [OF _ Q v] settled_skip j by blast
next
  fix D P Q V x xs
  assume j: "inv g c s D P Q V \<and> settled_ok g c s D Q V" and Q: "Q = x # xs"
    and v: "snd (heap_least x xs) \<notin> V"
  have i: "inv g c s D P Q V" and o: "settled_ok g c s D Q V" using j by simp_all
  from inv_visit [OF wf i Q v] obtain w D' P' Q' where
    w: "map_of g (snd (heap_least x xs)) = Some w"
    and r: "relax c (insert (snd (heap_least x xs)) V) (snd (heap_least x xs))
           (fst (heap_least x xs)) (edges w) (D, P, remove1 (heap_least x xs) Q)
           = Inr (D', P', Q')"
    and R: "relaxed g c (snd (heap_least x xs)) (fst (heap_least x xs))
            (insert (snd (heap_least x xs)) V) D P (remove1 (heap_least x xs) Q) D' P' Q'"
    and i': "inv g c s D' P' Q' (insert (snd (heap_least x xs)) V)" by blast
  have "settled_ok g c s D' Q' (insert (snd (heap_least x xs)) V)"
    using settled_step [OF wf nn i o Q v R] .
  then show "\<exists>v D' P' Q'. map_of g (snd (heap_least x xs)) = Some v \<and>
         relax c (insert (snd (heap_least x xs)) V) (snd (heap_least x xs))
           (fst (heap_least x xs)) (edges v) (D, P, remove1 (heap_least x xs) Q)
           = Inr (D', P', Q') \<and>
         (inv g c s D' P' Q' (insert (snd (heap_least x xs)) V) \<and>
          settled_ok g c s D' Q' (insert (snd (heap_least x xs)) V))"
    using w r i' by blast
qed

lemma settled_init: "settled_ok g c s D Q {}"
  by (simp add: settled_ok_def)

lemma final_least:
  assumes I: "inv g c s D P Q V" and O: "settled_ok g c s D Q V" and nn: "nonneg g c"
    and F: "final brk b Q"
    and p: "path_cost g c p = Some t" "hd p = s" "last p = b"
  shows "\<exists>d. D b = Some (Fin d) \<and> d \<le> t"
proof (cases "b \<in> V")
  case True
  from inv_settled_finite [OF I True] obtain d where d: "D b = Some (Fin d)" by blast
  then show ?thesis using settledD(1) [OF O True p d] by simp
next
  case False
  then have "last p \<notin> V" using p(3) by simp
  from first_exit [OF I O nn p(1) p(2) this] obtain d' y where
    q: "(d', y) \<in> set Q" "d' \<le> t" by blast
  then obtain x xs where Q: "Q = x # xs" by (cases Q) auto
  then have m: "snd (heap_least x xs) = b" using F by (simp add: final_def)
  have fr: "frontier_ok g D Q V" using I unfolding inv_def by simp
  have nv: "snd (heap_least x xs) \<notin> V" using m False by simp
  note pf = pop_facts [OF fr Q nv]
  have "fst (heap_least x xs) \<le> d'" using pf(4) q(1) by auto
  then show ?thesis using pf(3) m q(2) by auto
qed

lemma dijkstra_least:
  assumes wf: "wf_graph g" and nn: "nonneg g c"
    and a: "map_of g a \<noteq> None" and b: "map_of g b \<noteq> None"
    and p: "path_cost g c p = Some t" "hd p = a" "last p = b"
  shows "\<exists>d path. dijkstra_with brk g a b c = Some (Inr (Fin d, path)) \<and> d \<le> t \<and>
           path_cost g c path = Some d \<and> hd path = a \<and> last path = b"
proof -
  let ?D0 = "(map_of (map (\<lambda>(k, v). (k, Infinity)) g))(a \<mapsto> Fin 0)"
  let ?P0 = "map_of (map (\<lambda>(k, v). (k, None :: int option)) g)"
  from loop_settled [OF wf nn inv_init [OF a] settled_init, where brk = brk and b = b]
  obtain D P Q V where
    l: "dijkstra_loop brk g c b ?D0 ?P0 [(0, a)] {} = Inr (D, P)"
    and I: "inv g c a D P Q V" and O: "settled_ok g c a D Q V" and F: "final brk b Q" by blast
  from final_least [OF I O nn F p] obtain d where d: "D b = Some (Fin d)" "d \<le> t" by blast
  from chain_exists [OF I b] d(1) obtain xs where xs: "chain P b xs"
    "path_cost g c (rev xs) = Some d" "last xs = a" by auto
  have rec: "reconstruct P (Some b) [] = Some (Inr xs)"
    using chain_reconstruct [OF xs(1), of "[]"] by simp
  have res: "dijkstra_with brk g a b c = Some (Inr (Fin d, rev xs))"
    using a b l rec d(1) by (simp add: dijkstra_with_def)
  have ne: "xs \<noteq> []" and hd: "hd xs = b" using chain_hd [OF xs(1)] by simp_all
  have "hd (rev xs) = a" using ne xs(3) by (simp add: hd_rev)
  moreover have "last (rev xs) = b" using ne hd by (simp add: last_rev)
  ultimately show ?thesis using res d(2) xs(2) by blast
qed

text \<open>
  C2: on a well-formed graph whose edge costs under condition \<open>c\<close> are non-negative,
  for vertices \<open>a\<close> and \<open>b\<close> of the graph and any vertex sequence \<open>p\<close> that is a path
  from \<open>a\<close> to \<open>b\<close> with cost \<open>t\<close>, \<open>dijkstra\<close> returns a finite cost that is at most
  \<open>t\<close> (and a path from \<open>a\<close> to \<open>b\<close> that has this cost).
\<close>

theorem dijkstra_optimal:
  assumes "wf_graph g" and "nonneg g c"
    and "map_of g a \<noteq> None" and "map_of g b \<noteq> None"
    and "path_cost g c p = Some t" and "hd p = a" and "last p = b"
  shows "\<exists>d path. dijkstra g a b c = Some (Inr (Fin d, path)) \<and> d \<le> t \<and>
           path_cost g c path = Some d \<and> hd path = a \<and> last path = b"
  using dijkstra_least [OF assms, of True] by (simp add: dijkstra_def)

lemma detour_map_value:
  "detour_map =
    [(0, \<lparr>vid = 0, vx = 0, vy = 0,
          edges = [(1, \<lparr>vertex1 = 0, vertex2 = 1,
                        weights = \<lparr>w_light = 3, w_normal = 5, w_rush_hour = 9\<rparr>\<rparr>),
                   (2, \<lparr>vertex1 = 0, vertex2 = 2,
                        weights = \<lparr>w_light = 7, w_normal = 12, w_rush_hour = 30\<rparr>\<rparr>)]\<rparr>),
     (1, \<lparr>vid = 1, vx = 1, vy = 0,
          edges = [(0, \<lparr>vertex1 = 0, vertex2 = 1,
                        weights = \<lparr>w_light = 3, w_normal = 5, w_rush_hour = 9\<rparr>\<rparr>),
                   (2, \<lparr>vertex1 = 1, vertex2 = 2,
                        weights = \<lparr>w_light = 3, w_normal = 5, w_rush_hour = 9\<rparr>\<rparr>)]\<rparr>),
     (2, \<lparr>vid = 2, vx = 2, vy = 0,
          edges = [(1, \<lparr>vertex1 = 1, vertex2 = 2,
                        weights = \<lparr>w_light = 3, w_normal = 5, w_rush_hour = 9\<rparr>\<rparr>),
                   (0, \<lparr>vertex1 = 0, vertex2 = 2,
                        weights = \<lparr>w_light = 7, w_normal = 12, w_rush_hour = 30\<rparr>\<rparr>)]\<rparr>)]"
  by code_simp

lemma detour_map_nonneg: "nonneg detour_map ''normal''"
  unfolding nonneg_def
  by (auto simp: edge_of_def detour_map_value get_weight_def split: if_splits)

theorem dijkstra_optimal_witness:
  "wf_graph detour_map \<and> nonneg detour_map ''normal'' \<and>
   map_of detour_map 0 \<noteq> None \<and> map_of detour_map 2 \<noteq> None \<and>
   path_cost detour_map ''normal'' [0, 2] = Some 12 \<and>
   dijkstra detour_map 0 2 ''normal'' = Some (Inr (Fin 10, [0, 1, 2])) \<and> (10 :: int) \<le> 12"
proof -
  have wf: "wf_graph detour_map" by code_simp
  have a: "map_of detour_map 0 \<noteq> None" and b: "map_of detour_map 2 \<noteq> None" by code_simp+
  have p: "path_cost detour_map ''normal'' [0, 2] = Some 12" by code_simp
  have ev: "dijkstra detour_map 0 2 ''normal'' = Some (Inr (Fin 10, [0, 1, 2]))" by code_simp
  from dijkstra_optimal [OF wf detour_map_nonneg a b p] ev
  have "(10 :: int) \<le> 12" by auto
  then show ?thesis using wf detour_map_nonneg a b p ev by simp
qed

section \<open>Direction quantization\<close>

text \<open>
  The chain of \<open>Graph._get_direction\<close> read as sectors of the computed angle: each
  sector has its upper edge and not its lower edge, except that east has both of its
  edges, so that southeast has neither. Which computed angle a displacement gets is
  the library's floating-point matter and is not decided here.
\<close>

lemma direction_of_angle_sectors:
  "(direction_of_angle a = ''east'' \<longleftrightarrow> - 22.5 \<le> a \<and> a \<le> 22.5) \<and>
   (direction_of_angle a = ''northeast'' \<longleftrightarrow> 22.5 < a \<and> a \<le> 67.5) \<and>
   (direction_of_angle a = ''north'' \<longleftrightarrow> 67.5 < a \<and> a \<le> 112.5) \<and>
   (direction_of_angle a = ''northwest'' \<longleftrightarrow> 112.5 < a \<and> a \<le> 157.5) \<and>
   (direction_of_angle a = ''west'' \<longleftrightarrow> 157.5 < a \<or> a \<le> - 157.5) \<and>
   (direction_of_angle a = ''southwest'' \<longleftrightarrow> - 157.5 < a \<and> a \<le> - 112.5) \<and>
   (direction_of_angle a = ''south'' \<longleftrightarrow> - 112.5 < a \<and> a \<le> - 67.5) \<and>
   (direction_of_angle a = ''southeast'' \<longleftrightarrow> - 67.5 < a \<and> a < - 22.5)"
  by (simp add: direction_of_angle_def)

lemma get_direction_result:
  "get_direction lib dx dy =
     (case lib dx dy of Inl err \<Rightarrow> Inl err | Inr a \<Rightarrow> Inr (direction_of_angle a))"
  by (simp add: get_direction_def)

section \<open>Construction keeps graphs well-formed\<close>

text \<open>
  The empty graph is well-formed, and \<open>add_vertex\<close>, \<open>add_edge\<close> and \<open>add_cop\<close> keep
  the state well-formed: the well-formedness assumed of a graph in the theorems holds
  of every graph the program can build.
\<close>

lemma set_update_cases: "p \<in> set (AList.update k v al) \<Longrightarrow> p = (k, v) \<or> p \<in> set al"
  by (induction al) (auto split: if_splits)

lemma set_map_entry_cases:
  "p \<in> set (AList.map_entry k f al) \<Longrightarrow> p \<in> set al \<or> (\<exists>v. (k, v) \<in> set al \<and> p = (k, f v))"
  by (induction al) (auto split: if_splits)

lemma wf_entry:
  assumes "wf_graph g" and mem: "(k, v) \<in> set g"
  shows "distinct (map fst (edges v))"
    and "\<forall>(n, e) \<in> set (edges v). map_of g n \<noteq> None"
proof -
  have "\<forall>(k, v) \<in> set g. distinct (map fst (edges v)) \<and>
          (\<forall>(n, e) \<in> set (edges v). map_of g n \<noteq> None)"
    using assms(1) unfolding wf_graph_def by (rule conjunct2)
  from bspec [OF this mem]
  show "distinct (map fst (edges v))" and "\<forall>(n, e) \<in> set (edges v). map_of g n \<noteq> None"
    by simp_all
qed

lemma wf_graphI:
  assumes "distinct (map fst g)"
    and "\<And>k v. (k, v) \<in> set g \<Longrightarrow>
           distinct (map fst (edges v)) \<and> (\<forall>(n, e) \<in> set (edges v). map_of g n \<noteq> None)"
  shows "wf_graph g"
  unfolding wf_graph_def using assms by blast

lemma wf_empty: "wf_graph []"
  by (simp add: wf_graph_def)

lemma wf_add_vertex:
  assumes "wf_graph g"
  shows "wf_graph (snd (add_vertex g i x y))"
proof -
  let ?v = "\<lparr>vid = i, vx = x, vy = y, edges = []\<rparr>"
  let ?g = "AList.update i ?v g"
  have d: "distinct (map fst ?g)" using assms by (simp add: wf_graph_def distinct_update)
  have keep: "map_of ?g n \<noteq> None" if "map_of g n \<noteq> None" for n
    using that by (simp add: update_conv')
  have "distinct (map fst (edges v)) \<and> (\<forall>(n, e) \<in> set (edges v). map_of ?g n \<noteq> None)"
    if "(k, v) \<in> set ?g" for k v
  proof -
    from set_update_cases [OF that] show ?thesis
    proof
      assume "(k, v) = (i, ?v)"
      then show ?thesis by simp
    next
      assume "(k, v) \<in> set g"
      then have "distinct (map fst (edges v))" "\<forall>(n, e) \<in> set (edges v). map_of g n \<noteq> None"
        using wf_entry [OF assms] by blast+
      then show ?thesis using keep by blast
    qed
  qed
  then have "wf_graph ?g" using d by (intro wf_graphI)
  then show ?thesis by (simp add: add_vertex_def Let_def)
qed

lemma wf_set_edge:
  assumes wf: "wf_graph g" and b: "map_of g b \<noteq> None"
  shows "wf_graph (set_edge g a b e)"
proof -
  let ?f = "\<lambda>v. v\<lparr>edges := AList.update b e (edges v)\<rparr>"
  let ?g = "AList.map_entry a ?f g"
  have d: "distinct (map fst ?g)" using wf by (simp add: wf_graph_def distinct_map_entry)
  have dom: "map_of ?g n \<noteq> None \<longleftrightarrow> map_of g n \<noteq> None" for n
    by (simp add: map_of_map_entry split: option.splits)
  have old: "distinct (map fst (edges v)) \<and> (\<forall>(n, e) \<in> set (edges v). map_of g n \<noteq> None)"
    if "(k, v) \<in> set g" for k v
    using wf_entry [OF wf that] by blast
  have "distinct (map fst (edges v)) \<and> (\<forall>(n, e) \<in> set (edges v). map_of ?g n \<noteq> None)"
    if "(k, v) \<in> set ?g" for k v
  proof -
    from set_map_entry_cases [OF that] show ?thesis
    proof (elim disjE exE conjE)
      assume "(k, v) \<in> set g"
      then show ?thesis using old dom by auto
    next
      fix v0 assume v0: "(a, v0) \<in> set g" "(k, v) = (a, ?f v0)"
      have o: "distinct (map fst (edges v0))" "\<forall>(n, e) \<in> set (edges v0). map_of g n \<noteq> None"
        using old [OF v0(1)] by simp_all
      have "distinct (map fst (AList.update b e (edges v0)))" using o(1) by (rule distinct_update)
      moreover have "map_of ?g n \<noteq> None" if "(n, e') \<in> set (AList.update b e (edges v0))" for n e'
        using set_update_cases [OF that] o(2) b dom by auto
      ultimately show ?thesis using v0(2) by auto
    qed
  qed
  then have "wf_graph ?g" using d by (intro wf_graphI)
  then show ?thesis by (simp add: set_edge_def)
qed

lemma wf_add_edge:
  assumes wf: "wf_graph g" and r: "add_edge g id1 id2 l n r = Inr (e, g')"
  shows "wf_graph g'"
proof -
  have i: "map_of g id1 \<noteq> None" "map_of g id2 \<noteq> None"
    using r by (auto simp: add_edge_def split: if_splits)
  let ?e = "\<lparr>vertex1 = id1, vertex2 = id2,
              weights = \<lparr>w_light = l, w_normal = n, w_rush_hour = r\<rparr>\<rparr>"
  have g': "g' = set_edge (set_edge g id1 id2 ?e) id2 id1 ?e"
    using r i by (auto simp: add_edge_def Let_def)
  have w1: "wf_graph (set_edge g id1 id2 ?e)" using wf i(2) by (rule wf_set_edge)
  have "map_of (set_edge g id1 id2 ?e) id1 \<noteq> None"
    using i(1) by (auto simp: map_of_set_edge split: option.splits)
  then show ?thesis using wf_set_edge [OF w1] g' by simp
qed

lemma wf_add_cop:
  assumes "wf_dispatch s" and "add_cop s cop_id vertex_id = Inr s'"
  shows "wf_dispatch s'"
proof -
  have v: "map_of (graph s) vertex_id \<noteq> None"
    and s': "s' = s\<lparr>cops := AList.update cop_id vertex_id (cops s)\<rparr>"
    using assms(2) by (auto simp: add_cop_def split: if_splits)
  have "map_of (graph s) loc \<noteq> None" if "(c, loc) \<in> set (AList.update cop_id vertex_id (cops s))"
    for c loc
    using set_update_cases [OF that] v assms(1) unfolding wf_dispatch_def by auto
  then show ?thesis
    using assms(1) s' unfolding wf_dispatch_def by (auto simp: distinct_update)
qed


text \<open>
  The directory stays well-formed when a cop is removed and when the graph it
  refers to grows.
\<close>

lemma set_edge_keeps_keys: "map_of (set_edge g a b e) n \<noteq> None \<longleftrightarrow> map_of g n \<noteq> None"
  by (simp add: map_of_set_edge split: option.splits)

lemma wf_remove_cop:
  assumes "wf_dispatch s"
  shows "wf_dispatch (remove_cop s cop_id)"
proof -
  have sub: "set (AList.delete cop_id (cops s)) \<subseteq> set (cops s)"
    by (auto simp: AList.delete_eq)
  have d: "distinct (map fst (AList.delete cop_id (cops s)))"
    using assms by (simp add: wf_dispatch_def distinct_delete)
  have "\<forall>(c, loc) \<in> set (cops s). map_of (graph s) loc \<noteq> None"
    using assms by (simp add: wf_dispatch_def)
  then have "\<forall>(c, loc) \<in> set (AList.delete cop_id (cops s)). map_of (graph s) loc \<noteq> None"
    using sub by blast
  then show ?thesis
    using assms d by (simp add: remove_cop_def wf_dispatch_def)
qed

lemma wf_dispatch_add_vertex:
  assumes "wf_dispatch s"
  shows "wf_dispatch (s\<lparr>graph := snd (add_vertex (graph s) i x y)\<rparr>)"
proof -
  have "\<forall>(c, loc) \<in> set (cops s). map_of (graph s) loc \<noteq> None"
    using assms by (simp add: wf_dispatch_def)
  then have "\<forall>(c, loc) \<in> set (cops s). map_of (snd (add_vertex (graph s) i x y)) loc \<noteq> None"
    by (auto simp: add_vertex_def Let_def update_conv')
  moreover have "wf_graph (snd (add_vertex (graph s) i x y))"
    using assms by (simp add: wf_dispatch_def wf_add_vertex)
  ultimately show ?thesis using assms by (simp add: wf_dispatch_def)
qed

lemma wf_dispatch_add_edge:
  assumes "wf_dispatch s" and r: "add_edge (graph s) id1 id2 l n r = Inr (e, g')"
  shows "wf_dispatch (s\<lparr>graph := g'\<rparr>)"
proof -
  have wf: "wf_graph g'" using assms by (auto simp: wf_dispatch_def intro: wf_add_edge)
  obtain e0 where g': "g' = set_edge (set_edge (graph s) id1 id2 e0) id2 id1 e0"
    using r by (auto simp: add_edge_def Let_def split: if_splits)
  have keys: "map_of g' k \<noteq> None \<longleftrightarrow> map_of (graph s) k \<noteq> None" for k
    by (simp only: g' set_edge_keeps_keys)
  have "\<forall>(c, loc) \<in> set (cops s). map_of (graph s) loc \<noteq> None"
    using assms(1) by (simp add: wf_dispatch_def)
  then have "\<forall>(c, loc) \<in> set (cops s). map_of g' loc \<noteq> None"
    using keys by blast
  then show ?thesis using assms(1) wf by (simp add: wf_dispatch_def)
qed

section \<open>The narrated total\<close>

text \<open>
  When the library call does not raise, the total that \<open>get_path_description\<close> adds up
  along a path is the cost of the path.
\<close>

lemma describe_steps_total:
  "path_cost g c p = Some t \<Longrightarrow>
   (\<exists>ds. describe_steps lib g c p description tot = Inr (ds, tot + t)) \<or>
   (\<exists>err dx dy. describe_steps lib g c p description tot = Inl err \<and> lib dx dy = Inl err)"
proof (induction g c p arbitrary: t description tot rule: path_cost.induct)
  case (1 g c)
  then show ?case by simp
next
  case (2 g c u)
  then show ?case by (auto split: if_splits)
next
  case (3 g c u v rest)
  from "3.prems"(1) obtain e t' where e: "edge_of g u v = Some e"
    and t': "path_cost g c (v # rest) = Some t'" and t: "t = get_weight e c + t'"
    by (auto split: option.splits)
  from e obtain vu where vu: "map_of g u = Some vu" "map_of (edges vu) v = Some e"
    by (auto simp: edge_of_def split: option.splits)
  from path_cost_hd [OF t'] obtain vv where vv: "map_of g v = Some vv" by auto
  show ?case
  proof (cases "lib (vx vv - vx vu) (vy vv - vy vu)")
    case (Inl err)
    then have "describe_steps lib g c (u # v # rest) description tot = Inl err"
      using vu vv by (simp add: Let_def get_direction_def)
    then show ?thesis using Inl by blast
  next
    case (Inr a)
    define line where "line = ''From vertex '' @ str_int u @ '' go '' @ direction_of_angle a
                   @ '' to vertex '' @ str_int v @ '' (''
                   @ str_int (get_weight e c) @ '' minutes)''"
    define R where "R = describe_steps lib g c (v # rest) (description @ [line])
                          (tot + get_weight e c)"
    have step: "describe_steps lib g c (u # v # rest) description tot = R"
      using vu vv Inr by (simp add: Let_def get_direction_def R_def line_def)
    have ih: "(\<exists>ds. R = Inr (ds, tot + get_weight e c + t')) \<or>
              (\<exists>err dx dy. R = Inl err \<and> lib dx dy = Inl err)"
      unfolding R_def by (rule "3.IH" [OF e t'])
    have "tot + get_weight e c + t' = tot + t" using t by simp
    then have "(\<exists>ds. R = Inr (ds, tot + t)) \<or>
               (\<exists>err dx dy. R = Inl err \<and> lib dx dy = Inl err)"
      using ih by (simp only:)
    then show ?thesis unfolding step .
  qed
qed

section \<open>Queries leave the state alone\<close>


end
